theory Spec2Isabelle
  imports Main "HOL-Library.Word"
begin

unbundle bit_operations_syntax

section \<open>Go standard-library functions used by the router\<close>

text \<open>
  A Go \<open>string\<close> is a sequence of bytes; it is modelled as a \<open>string\<close> (a list of
  8-bit \<open>char\<close>s). An index result of \<open>-1\<close> is \<open>None\<close>.
\<close>

subsection \<open>Searching\<close>

text \<open>\<open>strings.IndexByte\<close>: the index of the first occurrence of a byte.\<close>

fun IndexByte :: "string \<Rightarrow> char \<Rightarrow> nat option" where
  "IndexByte [] c = None"
| "IndexByte (x # xs) c = (if x = c then Some 0 else map_option Suc (IndexByte xs c))"

text \<open>\<open>strings.LastIndex\<close> with a one-byte separator: the index of the last occurrence.\<close>

fun LastIndex :: "string \<Rightarrow> char \<Rightarrow> nat option" where
  "LastIndex [] c = None"
| "LastIndex (x # xs) c =
     (case LastIndex xs c of
        Some k \<Rightarrow> Some (Suc k)
      | None \<Rightarrow> (if x = c then Some 0 else None))"

text \<open>\<open>strings.Contains\<close> with a one-byte substring.\<close>

definition Contains :: "string \<Rightarrow> char \<Rightarrow> bool" where
  "Contains s c = (IndexByte s c \<noteq> None)"

text \<open>\<open>strings.HasPrefix\<close>.\<close>

definition HasPrefix :: "string \<Rightarrow> string \<Rightarrow> bool" where
  "HasPrefix s p = (take (length p) s = p)"

text \<open>
  \<open>strings.SplitN(s, sep, 2)\<close> with a one-byte separator that occurs in \<open>s\<close>: the text
  before the first separator and the text after it. (The router calls it only when
  the separator occurs; without one, Go returns the single part \<open>s\<close>.)
\<close>

definition SplitN2 :: "string \<Rightarrow> char \<Rightarrow> string list" where
  "SplitN2 s sep =
     (case IndexByte s sep of
        None \<Rightarrow> [s]
      | Some i \<Rightarrow> [take i s, drop (Suc i) s])"

subsection \<open>Trimming white space\<close>

text \<open>
  \<open>strings.TrimSpace\<close> removes leading and trailing Unicode white space, decoding the
  string as UTF-8. The white-space code points are U+0009--U+000D, U+0020, U+0085,
  U+00A0, U+1680, U+2000--U+200A, U+2028, U+2029, U+202F, U+205F and U+3000. As the
  decoder accepts only the shortest encoding of a code point and yields the
  replacement character (not white space) for anything malformed, a white-space rune
  is, on the byte level, exactly one of the byte sequences below.
\<close>

definition spaceRunes :: "string list" where
  "spaceRunes =
     [[CHR 0x09], [CHR 0x0A], [CHR 0x0B], [CHR 0x0C], [CHR 0x0D], [CHR 0x20],
      [CHR 0xC2, CHR 0x85], [CHR 0xC2, CHR 0xA0],
      [CHR 0xE1, CHR 0x9A, CHR 0x80],
      [CHR 0xE2, CHR 0x80, CHR 0x80], [CHR 0xE2, CHR 0x80, CHR 0x81],
      [CHR 0xE2, CHR 0x80, CHR 0x82], [CHR 0xE2, CHR 0x80, CHR 0x83],
      [CHR 0xE2, CHR 0x80, CHR 0x84], [CHR 0xE2, CHR 0x80, CHR 0x85],
      [CHR 0xE2, CHR 0x80, CHR 0x86], [CHR 0xE2, CHR 0x80, CHR 0x87],
      [CHR 0xE2, CHR 0x80, CHR 0x88], [CHR 0xE2, CHR 0x80, CHR 0x89],
      [CHR 0xE2, CHR 0x80, CHR 0x8A],
      [CHR 0xE2, CHR 0x80, CHR 0xA8], [CHR 0xE2, CHR 0x80, CHR 0xA9],
      [CHR 0xE2, CHR 0x80, CHR 0xAF],
      [CHR 0xE2, CHR 0x81, CHR 0x9F],
      [CHR 0xE3, CHR 0x80, CHR 0x80]]"

text \<open>The number of bytes of the rune from \<open>runes\<close> that \<open>s\<close> starts with; 0 if none.\<close>

definition runeWidth :: "string list \<Rightarrow> string \<Rightarrow> nat" where
  "runeWidth runes s =
     (case find (\<lambda>r. r \<noteq> [] \<and> take (length r) s = r) runes of
        None \<Rightarrow> 0
      | Some r \<Rightarrow> length r)"

lemma runeWidth_le: "runeWidth runes s \<le> length s"
proof (cases "find (\<lambda>r. r \<noteq> [] \<and> take (length r) s = r) runes")
  case None
  then show ?thesis by (simp add: runeWidth_def)
next
  case (Some r)
  then have "take (length r) s = r"
    by (auto simp: find_Some_iff)
  then have "length (take (length r) s) = length r"
    by simp
  then have "length r \<le> length s"
    by simp
  with Some show ?thesis by (simp add: runeWidth_def)
qed

text \<open>\<open>strings.TrimLeftFunc\<close>: drop runes from the front while they are in \<open>runes\<close>.\<close>

function TrimLeftRunes :: "string list \<Rightarrow> string \<Rightarrow> string" where
  "TrimLeftRunes runes s =
     (if runeWidth runes s = 0 then s
      else TrimLeftRunes runes (drop (runeWidth runes s) s))"
  by pat_completeness auto
termination
proof (relation "measure (\<lambda>(runes, s). length s)")
  show "wf (measure (\<lambda>(runes, s). length s))" by simp
next
  fix runes :: "string list" and s :: string
  assume "runeWidth runes s \<noteq> 0"
  moreover have "runeWidth runes s \<le> length s" by (rule runeWidth_le)
  ultimately show "((runes, drop (runeWidth runes s) s), (runes, s))
      \<in> measure (\<lambda>(runes, s). length s)"
    by simp
qed

declare TrimLeftRunes.simps [simp del]

text \<open>
  Trimming on the right strips the same runes, read from the end of the string:
  reversed, they are prefixes of the reversed string.
\<close>

definition TrimRightRunes :: "string list \<Rightarrow> string \<Rightarrow> string" where
  "TrimRightRunes runes s = rev (TrimLeftRunes (map rev runes) (rev s))"

definition TrimSpace :: "string \<Rightarrow> string" where
  "TrimSpace s = TrimRightRunes spaceRunes (TrimLeftRunes spaceRunes s)"

text \<open>
  Two properties of a list of runes, by which a string is cut into runes in one way
  only: no rune is empty or the beginning of another one, and the first byte of a
  rune is not a later byte of any.
\<close>

definition prefixFree :: "string list \<Rightarrow> bool" where
  "prefixFree runes =
     (\<forall>r\<in>set runes. r \<noteq> [] \<and> (\<forall>r'\<in>set runes. take (length r) r' = r \<longrightarrow> r = r'))"

definition separated :: "string list \<Rightarrow> bool" where
  "separated runes = (\<forall>r\<in>set runes. \<forall>r'\<in>set runes. hd r' \<notin> set (tl r))"

subsection \<open>Numbers\<close>

definition isDigit :: "char \<Rightarrow> bool" where
  "isDigit c = (of_char CHR ''0'' \<le> (of_char c :: int) \<and> (of_char c :: int) \<le> of_char CHR ''9'')"

text \<open>The value of a string of decimal digits, most significant first.\<close>

fun digitsValue :: "int \<Rightarrow> string \<Rightarrow> int" where
  "digitsValue n [] = n"
| "digitsValue n (ch # s) = digitsValue (n * 10 + (of_char ch - of_char CHR ''0'')) s"

text \<open>
  \<open>strconv.Atoi\<close>, on a platform whose \<open>int\<close> has 64 bits: an optional sign, then one
  or more decimal digits, whose value must fit the type. A syntax error and a range
  error are both \<open>None\<close>.
\<close>

definition Atoi :: "string \<Rightarrow> int option" where
  "Atoi s =
     (if s = [] then None
      else
        let neg = (hd s = CHR ''-'');
            ds = (if hd s = CHR ''-'' \<or> hd s = CHR ''+'' then tl s else s)
        in if ds = [] \<or> \<not> list_all isDigit ds then None
           else if neg then
             (if digitsValue 0 ds \<le> 2 ^ 63 then Some (- digitsValue 0 ds) else None)
           else
             (if digitsValue 0 ds < 2 ^ 63 then Some (digitsValue 0 ds) else None))"

subsection \<open>Network addresses\<close>

text \<open>The reasons for which \<open>net.SplitHostPort\<close> refuses an address.\<close>

datatype addr_error =
    MissingPort
  | TooManyColons
  | MissingCloseBracket
  | UnexpectedOpenBracket
  | UnexpectedCloseBracket

text \<open>
  \<open>net.SplitHostPort\<close>: the port is what follows the last colon; the host is what
  precedes it and has no colon of its own, unless it is written in square brackets.
\<close>

definition SplitHostPort :: "string \<Rightarrow> addr_error + (string \<times> string)" where
  "SplitHostPort hostport =
     (case LastIndex hostport CHR '':'' of
        None \<Rightarrow> Inl MissingPort
      | Some i \<Rightarrow>
          (if hd hostport = CHR ''[''
           then
             (case IndexByte hostport CHR '']'' of
                None \<Rightarrow> Inl MissingCloseBracket
              | Some e \<Rightarrow>
                  if e + 1 = length hostport then Inl MissingPort
                  else if e + 1 = i then
                    (if Contains (drop 1 hostport) CHR ''['' then Inl UnexpectedOpenBracket
                     else if Contains (drop (e + 1) hostport) CHR '']''
                       then Inl UnexpectedCloseBracket
                     else Inr (take (e - 1) (drop 1 hostport), drop (i + 1) hostport))
                  else if hostport ! (e + 1) = CHR '':'' then Inl TooManyColons
                  else Inl MissingPort)
           else
             (if Contains (take i hostport) CHR '':'' then Inl TooManyColons
              else if Contains hostport CHR ''['' then Inl UnexpectedOpenBracket
              else if Contains hostport CHR '']'' then Inl UnexpectedCloseBracket
              else Inr (take i hostport, drop (i + 1) hostport))))"

section \<open>Routes\<close>

text \<open>\<open>RouteConfig\<close>: a single routing rule.\<close>

record RouteConfig =
  Host :: string
  Target :: string
  Passthrough :: bool
  ProxyAddr :: string

text \<open>\<open>RouteMap\<close>: all routing rules, by host.\<close>

record RouteMap =
  rules :: "string \<rightharpoonup> RouteConfig"

text \<open>\<open>RouteMap.Lookup\<close>: \<open>Some cfg\<close> is Go's \<open>(cfg, true)\<close>, \<open>None\<close> is \<open>(nil, false)\<close>.\<close>

definition Lookup :: "RouteMap \<Rightarrow> string \<Rightarrow> RouteConfig option" where
  "Lookup rm host = rules rm host"

text \<open>The errors that \<open>parseRoute\<close> and \<open>parseRoutes\<close> build with \<open>fmt.Errorf\<close>.\<close>

datatype route_error =
    InvalidProxy string addr_error
  | InvalidFormat string
  | EmptyHostname
  | TargetRequired
  | InvalidPort string
  | InvalidTarget string addr_error
  | DuplicateRoute string

text \<open>\<open>parseRoute\<close> parses a single route string.\<close>

definition parseRoute :: "string \<Rightarrow> route_error + RouteConfig" where
  "parseRoute route =
     (case
        (case LastIndex route CHR ''@'' of
           None \<Rightarrow> Inr ([], route)
         | Some idx \<Rightarrow>
             (let proxyAddr = TrimSpace (drop (idx + 1) route);
                  remainder = TrimSpace (take idx route)
              in if proxyAddr \<noteq> [] then
                   (case SplitHostPort proxyAddr of
                      Inl err \<Rightarrow> Inl (InvalidProxy proxyAddr err)
                    | Inr _ \<Rightarrow> Inr (proxyAddr, remainder))
                 else Inr (proxyAddr, remainder)))
      of
        Inl err \<Rightarrow> Inl err
      | Inr (proxyAddr, remainder) \<Rightarrow>
          if Contains remainder CHR '':'' \<and> \<not> Contains remainder CHR ''=''
          then Inl (InvalidFormat route)
          else if \<not> Contains remainder CHR ''='' then
            (let host = TrimSpace remainder
             in if host = [] then Inl EmptyHostname
                else Inr \<lparr>Host = host, Target = [], Passthrough = True,
                          ProxyAddr = proxyAddr\<rparr>)
          else
            (let parts = SplitN2 remainder CHR ''='';
                 host = TrimSpace (parts ! 0);
                 target = TrimSpace (parts ! 1)
             in if host = [] then Inl EmptyHostname
                else if target = [] then Inl TargetRequired
                else if HasPrefix target '':'' then
                  (let port = drop 1 target
                   in case Atoi port of
                        None \<Rightarrow> Inl (InvalidPort port)
                      | Some _ \<Rightarrow>
                          Inr \<lparr>Host = host, Target = ''localhost'' @ target,
                               Passthrough = False, ProxyAddr = proxyAddr\<rparr>)
                else
                  (case SplitHostPort target of
                     Inl err \<Rightarrow> Inl (InvalidTarget target err)
                   | Inr _ \<Rightarrow>
                       Inr \<lparr>Host = host, Target = target, Passthrough = False,
                            ProxyAddr = proxyAddr\<rparr>)))"

text \<open>
  The steps of \<open>parseRoute\<close> after the proxy part (lines 91 to 132), as a function of
  the route string, the proxy address and the remainder: what \<open>parseRoute\<close> does once
  these two are known.
\<close>

definition parseRemainder :: "string \<Rightarrow> string \<Rightarrow> string \<Rightarrow> route_error + RouteConfig" where
  "parseRemainder route proxyAddr remainder =
     (if Contains remainder CHR '':'' \<and> \<not> Contains remainder CHR ''=''
      then Inl (InvalidFormat route)
      else if \<not> Contains remainder CHR ''='' then
        (let host = TrimSpace remainder
         in if host = [] then Inl EmptyHostname
            else Inr \<lparr>Host = host, Target = [], Passthrough = True,
                      ProxyAddr = proxyAddr\<rparr>)
      else
        (let parts = SplitN2 remainder CHR ''='';
             host = TrimSpace (parts ! 0);
             target = TrimSpace (parts ! 1)
         in if host = [] then Inl EmptyHostname
            else if target = [] then Inl TargetRequired
            else if HasPrefix target '':'' then
              (let port = drop 1 target
               in case Atoi port of
                    None \<Rightarrow> Inl (InvalidPort port)
                  | Some _ \<Rightarrow>
                      Inr \<lparr>Host = host, Target = ''localhost'' @ target,
                           Passthrough = False, ProxyAddr = proxyAddr\<rparr>)
            else
              (case SplitHostPort target of
                 Inl err \<Rightarrow> Inl (InvalidTarget target err)
               | Inr _ \<Rightarrow>
                   Inr \<lparr>Host = host, Target = target, Passthrough = False,
                        ProxyAddr = proxyAddr\<rparr>)))"

text \<open>
  \<open>parseRoutes\<close> parses the route flags into a \<open>RouteMap\<close>: the loop over the flags,
  with the map built so far.
\<close>

fun parseRoutesFrom :: "(string \<rightharpoonup> RouteConfig) \<Rightarrow> string list \<Rightarrow> route_error + RouteMap" where
  "parseRoutesFrom rm [] = Inr \<lparr>rules = rm\<rparr>"
| "parseRoutesFrom rm (route # routes) =
     (case parseRoute route of
        Inl err \<Rightarrow> Inl err
      | Inr cfg \<Rightarrow>
          if rm (Host cfg) \<noteq> None then Inl (DuplicateRoute (Host cfg))
          else parseRoutesFrom (rm(Host cfg \<mapsto> cfg)) routes)"

definition parseRoutes :: "string list \<Rightarrow> route_error + RouteMap" where
  "parseRoutes routes = parseRoutesFrom Map.empty routes"

section \<open>The dialer factory\<close>

text \<open>
  A dial function is a value: either the \<open>Dial\<close> method of a \<open>net.Dialer\<close> with a
  timeout (in seconds), or the \<open>Dial\<close> method of a SOCKS5 dialer for a proxy address,
  which reaches the proxy through such a \<open>net.Dialer\<close>.
\<close>

datatype dialFn =
    DirectDial nat
  | Socks5Dial string nat

datatype dialer_error =
    InvalidSocksAddress string addr_error
  | Socks5DialerFailed

text \<open>
  What a function does to the network and to its sockets is recorded as a list of
  events, in the order in which they happen. A deadline is in seconds from the call
  that sets it; \<open>None\<close> is no deadline (Go's zero \<open>time.Time\<close>).
\<close>

type_synonym byte = "8 word"

datatype side = Client | Backend

datatype log_line =
    LogHeaderFailed
  | LogRecordFailed
  | LogNoSNI
  | LogRejected string
  | LogRoute string string string
  | LogDialerFailed string
  | LogConnectFailed string
  | LogCopyError string

datatype event =
    SetReadDeadline "nat option"
  | SockRead side "nat option" "byte list"
  | SockWrite side "byte list"
  | LogLine log_line
  | CallCreateDialer string
  | Connect string string
  | SocksConnect string string
  | Close side

text \<open>
  \<open>proxy.SOCKS5\<close> (golang.org/x/net/proxy) with no authentication: it stores the
  proxy address and the forwarding dialer in a new dialer value and returns no error.
\<close>

definition SOCKS5 :: "string \<Rightarrow> string \<Rightarrow> nat \<Rightarrow> unit + dialFn" where
  "SOCKS5 network address forwardTimeout = Inr (Socks5Dial address forwardTimeout)"

text \<open>
  \<open>createDialer\<close> creates a dial function that optionally uses a SOCKS proxy. The
  second component lists the network events of the call: the body has none.
\<close>

definition createDialer :: "string \<Rightarrow> nat \<Rightarrow> (dialer_error + dialFn) \<times> event list" where
  "createDialer socksAddr timeout =
     (if socksAddr = [] then (Inr (DirectDial timeout), [])
      else
        case SplitHostPort socksAddr of
          Inl err \<Rightarrow> (Inl (InvalidSocksAddress socksAddr err), [])
        | Inr _ \<Rightarrow>
            (case SOCKS5 ''tcp'' socksAddr timeout of
               Inl _ \<Rightarrow> (Inl Socks5DialerFailed, [])
             | Inr socksDialer \<Rightarrow> (Inr socksDialer, [])))"

text \<open>
  The network a dial meets: which addresses accept a TCP connection, and to which
  destinations a proxy grants a tunnel.
\<close>

record network =
  accepts :: "string \<Rightarrow> bool"
  tunnels :: "string \<Rightarrow> string \<Rightarrow> bool"

text \<open>
  Calling a dial function. A direct dial connects to the address; a SOCKS5 dial
  connects to the proxy and asks it for the address. The result is whether a
  connection came back, with the events of the attempt.
\<close>

fun callDial :: "dialFn \<Rightarrow> network \<Rightarrow> string \<Rightarrow> string \<Rightarrow> bool \<times> event list" where
  "callDial (DirectDial timeout) net nw addr = (accepts net addr, [Connect nw addr])"
| "callDial (Socks5Dial proxyAddr timeout) net nw addr =
     (if accepts net proxyAddr
      then (tunnels net proxyAddr addr, [Connect ''tcp'' proxyAddr, SocksConnect proxyAddr addr])
      else (False, [Connect ''tcp'' proxyAddr]))"

section \<open>Sockets and copying\<close>

text \<open>
  The read half of a socket: the outcomes its successive \<open>Read\<close> calls will have (a
  delivery of bytes or an error; when the list is exhausted, end of stream), and the
  read deadline in force.
\<close>

datatype delivery = Data "byte list" | ReadError

record conn =
  incoming :: "delivery list"
  readDeadline :: "nat option"

datatype io_error = EOF | IOError | ErrShortWrite

text \<open>
  \<open>net.Conn.Read\<close> into a slice of \<open>k\<close> bytes: the bytes read, the error, the socket
  afterwards, and the event. A delivery longer than the slice is cut, and its rest
  waits for the next call.
\<close>

definition connRead :: "side \<Rightarrow> nat \<Rightarrow> conn \<Rightarrow> byte list \<times> io_error option \<times> conn \<times> event list" where
  "connRead sd k c =
     (case incoming c of
        [] \<Rightarrow> ([], Some EOF, c, [SockRead sd (readDeadline c) []])
      | ReadError # ds \<Rightarrow> ([], Some IOError, c, [SockRead sd (readDeadline c) []])
      | Data bs # ds \<Rightarrow>
          if length bs \<le> k
          then (bs, None, c\<lparr>incoming := ds\<rparr>, [SockRead sd (readDeadline c) bs])
          else (take k bs, None, c\<lparr>incoming := Data (drop k bs) # ds\<rparr>,
                [SockRead sd (readDeadline c) (take k bs)]))"

text \<open>
  The write half of a socket: how many more bytes it accepts before a \<open>Write\<close> fails
  (\<open>None\<close>: it never fails).
\<close>

record sink =
  room :: "nat option"

text \<open>\<open>net.Conn.Write\<close>: the count written, the error, the socket afterwards, the event.\<close>

definition connWrite :: "side \<Rightarrow> sink \<Rightarrow> byte list \<Rightarrow> nat \<times> io_error option \<times> sink \<times> event list" where
  "connWrite sd w bs =
     (case room w of
        None \<Rightarrow> (length bs, None, w, [SockWrite sd bs])
      | Some r \<Rightarrow>
          if length bs \<le> r
          then (length bs, None, w\<lparr>room := Some (r - length bs)\<rparr>, [SockWrite sd bs])
          else (r, Some IOError, w\<lparr>room := Some 0\<rparr>, [SockWrite sd (take r bs)]))"

text \<open>
  \<open>io.CopyN(&buf, conn, n)\<close> is \<open>buf.ReadFrom\<close> on a reader limited to \<open>n\<close> bytes:
  \<open>Read\<close> calls on the socket until \<open>n\<close> bytes are gathered, the stream ends or a
  call fails. The limited reader reports end of stream once \<open>n\<close> bytes have passed,
  and \<open>ReadFrom\<close> returns no error at end of stream. (The buffer offers each call
  its free space, at least 512 bytes, cut to the count still wanted. Here each call
  is offered the count still wanted: that changes how a delivery is cut into calls,
  not the bytes gathered.)
\<close>

function readLimited :: "side \<Rightarrow> nat \<Rightarrow> conn \<Rightarrow> byte list \<times> io_error option \<times> conn \<times> event list" where
  "readLimited sd n c =
     (if n = 0 then ([], None, c, [])
      else
        case connRead sd n c of
          (bs, Some EOF, c', evs) \<Rightarrow> (bs, None, c', evs)
        | (bs, Some e, c', evs) \<Rightarrow> (bs, Some e, c', evs)
        | (bs, None, c', evs) \<Rightarrow>
            (case readLimited sd (n - length bs) c' of
               (bs', err, c'', evs') \<Rightarrow> (bs @ bs', err, c'', evs @ evs')))"
  by pat_completeness auto
termination
  by (relation "measure (\<lambda>(sd, n, c). n + length (incoming c))")
     (auto simp: connRead_def split: list.splits delivery.splits if_splits)

declare readLimited.simps [simp del]

definition CopyN :: "side \<Rightarrow> conn \<Rightarrow> nat \<Rightarrow> byte list \<times> io_error option \<times> conn \<times> event list" where
  "CopyN sd c n =
     (case readLimited sd n c of
        (bs, err, c', evs) \<Rightarrow>
          if length bs = n then (bs, None, c', evs)
          else if err = None then (bs, Some EOF, c', evs)
          else (bs, err, c', evs))"

text \<open>
  The readers of the relay: a socket, the \<open>bytes.Buffer\<close> with its unread bytes, and
  \<open>io.MultiReader\<close> over a list of readers.
\<close>

datatype reader =
    ConnReader side conn
  | BufferReader "byte list"
  | MultiReader "reader list"

text \<open>
  \<open>Read\<close> into a slice of \<open>k\<close> bytes. The buffer reports end of stream when it is
  empty. The multi-reader reads its first reader, drops it at end of stream, and
  goes on to the next one when nothing was read.
\<close>

fun Read :: "nat \<Rightarrow> reader \<Rightarrow> byte list \<times> io_error option \<times> reader \<times> event list" where
  "Read k (ConnReader sd c) =
     (case connRead sd k c of (bs, err, c', evs) \<Rightarrow> (bs, err, ConnReader sd c', evs))"
| "Read k (BufferReader buf) =
     (if buf = [] then ([], if k = 0 then None else Some EOF, BufferReader [], [])
      else (take k buf, None, BufferReader (drop k buf), []))"
| "Read k (MultiReader []) = ([], Some EOF, MultiReader [], [])"
| "Read k (MultiReader (r # rs)) =
     (case Read k r of
        (bs, err, r', evs) \<Rightarrow>
          let readers = (if err = Some EOF then rs else r' # rs)
          in if bs \<noteq> [] \<or> err \<noteq> Some EOF
             then (bs, if err = Some EOF \<and> readers \<noteq> [] then None else err,
                   MultiReader readers, evs)
             else (case Read k (MultiReader rs) of
                     (bs', err', m, evs') \<Rightarrow> (bs', err', m, evs @ evs')))"

text \<open>What is left in a reader: the measure by which a copy loop ends.\<close>

fun pendingDelivery :: "delivery \<Rightarrow> nat" where
  "pendingDelivery (Data bs) = Suc (length bs)"
| "pendingDelivery ReadError = 1"

fun pending :: "reader \<Rightarrow> nat" where
  "pending (ConnReader sd c) = sum_list (map pendingDelivery (incoming c))"
| "pending (BufferReader buf) = length buf"
| "pending (MultiReader rs) = sum_list (map (\<lambda>r. Suc (pending r)) rs)"

lemma connRead_pending:
  "connRead sd k c = (bs, None, c', evs) \<Longrightarrow> 0 < k \<Longrightarrow>
     sum_list (map pendingDelivery (incoming c')) < sum_list (map pendingDelivery (incoming c))"
  by (auto simp: connRead_def split: list.splits delivery.splits if_splits)

lemma Read_pending:
  "Read k r = (bs, None, r', evs) \<Longrightarrow> 0 < k \<Longrightarrow> pending r' < pending r"
proof (induction k r arbitrary: bs r' evs rule: Read.induct)
  case (1 k sd c)
  then show ?case
    by (auto split: prod.splits dest: connRead_pending)
next
  case (2 k buf)
  then show ?case
    by (auto split: if_splits)
next
  case (3 k)
  then show ?case by simp
next
  case (4 k r rs)
  obtain bs1 err1 r1 evs1 where r: "Read k r = (bs1, err1, r1, evs1)"
    by (cases "Read k r") auto
  show ?case
  proof (cases "bs1 \<noteq> [] \<or> err1 \<noteq> Some EOF")
    case True
    show ?thesis
    proof (cases "err1 = Some EOF")
      case eof: True
      with True r "4.prems" show ?thesis
        by (auto simp: Let_def split: if_splits)
    next
      case False
      with True r "4.prems" have "err1 = None" "r' = MultiReader (r1 # rs)"
        by (auto simp: Let_def split: if_splits)
      with "4.IH"(1) [of bs1 r1 evs1] r "4.prems"(2) show ?thesis
        by simp
    qed
  next
    case False
    then have f: "bs1 = []" "err1 = Some EOF" by auto
    obtain bs2 err2 m evs2 where m: "Read k (MultiReader rs) = (bs2, err2, m, evs2)"
      by (cases "Read k (MultiReader rs)") auto
    with f r "4.prems" have "err2 = None" "r' = m"
      by (auto simp: Let_def)
    note "4.IH"(2)
    with f m r "4.prems"(2) \<open>err2 = None\<close> \<open>r' = m\<close>
    have "pending m < pending (MultiReader rs)" by (auto simp: Let_def)
    with \<open>r' = m\<close> show ?thesis by simp
  qed
qed

text \<open>
  \<open>io.Copy\<close>, as it runs here: neither socket wrapper offers a shortcut, so it is the
  loop that reads into a 32 KiB slice and writes what it read. The result is the
  error, both ends afterwards and the events.
\<close>

function ioCopy :: "side \<Rightarrow> sink \<Rightarrow> reader \<Rightarrow> io_error option \<times> sink \<times> reader \<times> event list" where
  "ioCopy sd w src =
     (case Read 32768 src of
        (bs, er, src', evs) \<Rightarrow>
          (case (if bs \<noteq> [] then connWrite sd w bs else (0, None, w, [])) of
             (nw, ew, w', evs') \<Rightarrow>
               if bs \<noteq> [] \<and> ew \<noteq> None then (ew, w', src', evs @ evs')
               else if bs \<noteq> [] \<and> length bs \<noteq> nw
                 then (Some ErrShortWrite, w', src', evs @ evs')
               else if er \<noteq> None
                 then (if er = Some EOF then None else er, w', src', evs @ evs')
               else
                 (case ioCopy sd w' src' of
                    (err, w'', src'', evs'') \<Rightarrow> (err, w'', src'', evs @ evs' @ evs''))))"
  by pat_completeness auto
termination
  apply (relation "measure (\<lambda>(sd, w, src). pending src)")
   apply simp
  apply (auto dest!: Read_pending [OF sym])
  done

declare ioCopy.simps [simp del]

section \<open>The connection handler\<close>

text \<open>\<open>binary.BigEndian.Uint16\<close>.\<close>

definition Uint16 :: "byte list \<Rightarrow> 16 word" where
  "Uint16 b = (ucast (b ! 1) OR push_bit 8 (ucast (b ! 0)))"

text \<open>What \<open>ParseClientHello\<close> returns with its flag: the parsed hello.\<close>

record ClientHello =
  SNI :: string

text \<open>A Go run-time panic: an index or a slice bound out of range.\<close>

datatype fault = OutOfRange

text \<open>
  Where the sequential part of \<open>handleConn\<close> ends: it returned (and its deferred
  \<open>conn.Close\<close> ran), or the parser panicked, or both copy goroutines were started
  with the buffered bytes, the backend address and the client socket.
\<close>

datatype outcome =
    Closed
  | Panicked
  | Relaying "byte list" string conn

text \<open>
  \<open>handleConn\<close>, up to the start of the two copies. \<open>ParseClientHello\<close> is not part
  of this file's sources: the handler takes it as the parameter \<open>parse\<close>.
\<close>

definition handleConn ::
  "(byte list \<Rightarrow> fault + ClientHello \<times> bool) \<Rightarrow> network \<Rightarrow> conn \<Rightarrow> RouteMap
     \<Rightarrow> event list \<times> outcome" where
  "handleConn parse net conn0 routes =
     (let conn = conn0\<lparr>readDeadline := Some 10\<rparr>;
          ev0 = [SetReadDeadline (Some 10)]
      in case CopyN Client conn 5 of
        (hdr, err, conn, ev1) \<Rightarrow>
          if err \<noteq> None
          then (ev0 @ ev1 @ [LogLine LogHeaderFailed, Close Client], Closed)
          else
            let length = Uint16 (take 2 (drop 3 hdr))
            in case CopyN Client conn (unat length) of
              (payload, err, conn, ev2) \<Rightarrow>
                if err \<noteq> None
                then (ev0 @ ev1 @ ev2 @ [LogLine LogRecordFailed, Close Client], Closed)
                else
                  let buf = hdr @ payload
                  in case parse buf of
                    Inl panic \<Rightarrow> (ev0 @ ev1 @ ev2 @ [Close Client], Panicked)
                  | Inr (ch, ok) \<Rightarrow>
                      if \<not> ok \<or> SNI ch = []
                      then (ev0 @ ev1 @ ev2 @ [LogLine LogNoSNI, Close Client], Closed)
                      else
                        case Lookup routes (SNI ch) of
                          None \<Rightarrow>
                            (ev0 @ ev1 @ ev2 @ [LogLine (LogRejected (SNI ch)), Close Client],
                             Closed)
                        | Some cfg \<Rightarrow>
                            let backend =
                                  (if Passthrough cfg then SNI ch @ '':443'' else Target cfg);
                                routeType =
                                  (if Passthrough cfg then ''passthrough'' else ''routed'');
                                ev3 = [LogLine (LogRoute (SNI ch) backend routeType),
                                       CallCreateDialer (ProxyAddr cfg)]
                            in case createDialer (ProxyAddr cfg) 10 of
                              (Inl err, ev4) \<Rightarrow>
                                (ev0 @ ev1 @ ev2 @ ev3 @ ev4
                                   @ [LogLine (LogDialerFailed (SNI ch)), Close Client],
                                 Closed)
                            | (Inr dialer, ev4) \<Rightarrow>
                                let conn = conn\<lparr>readDeadline := None\<rparr>;
                                    ev5 = [SetReadDeadline None]
                                in case callDial dialer net ''tcp'' backend of
                                  (False, ev6) \<Rightarrow>
                                    (ev0 @ ev1 @ ev2 @ ev3 @ ev4 @ ev5 @ ev6
                                       @ [LogLine (LogConnectFailed backend), Close Client],
                                     Closed)
                                | (True, ev6) \<Rightarrow>
                                    (ev0 @ ev1 @ ev2 @ ev3 @ ev4 @ ev5 @ ev6,
                                     Relaying buf backend conn))"

text \<open>
  The two copies of the relay. \<open>io.Copy(backendConn, c)\<close> reads the \<open>prefixConn\<close>,
  whose \<open>Read\<close> is that of \<open>io.MultiReader(&buf, conn)\<close>, and writes the backend.
  \<open>io.Copy(c, backendConn)\<close> reads the backend and writes the client socket.
\<close>

definition copyToBackend ::
  "byte list \<Rightarrow> conn \<Rightarrow> sink \<Rightarrow> io_error option \<times> sink \<times> reader \<times> event list" where
  "copyToBackend buf conn backendConn =
     ioCopy Backend backendConn (MultiReader [BufferReader buf, ConnReader Client conn])"

definition copyToClient ::
  "conn \<Rightarrow> sink \<Rightarrow> io_error option \<times> sink \<times> reader \<times> event list" where
  "copyToClient backendConn conn = ioCopy Client conn (ConnReader Backend backendConn)"

section \<open>The relay\<close>

text \<open>
  One turn of the loop of \<open>io.Copy\<close>: a \<open>Read\<close>, the \<open>Write\<close> of what was read,
  and whether the loop goes on or returns.
\<close>

datatype progress = Continue | Return "io_error option"

definition copyOnce :: "side \<Rightarrow> sink \<Rightarrow> reader \<Rightarrow> progress \<times> sink \<times> reader \<times> event list" where
  "copyOnce sd w src =
     (case Read 32768 src of
        (bs, er, src', evs) \<Rightarrow>
          (case (if bs \<noteq> [] then connWrite sd w bs else (0, None, w, [])) of
             (nw, ew, w', evs') \<Rightarrow>
               if bs \<noteq> [] \<and> ew \<noteq> None then (Return ew, w', src', evs @ evs')
               else if bs \<noteq> [] \<and> length bs \<noteq> nw
                 then (Return (Some ErrShortWrite), w', src', evs @ evs')
               else if er \<noteq> None
                 then (Return (if er = Some EOF then None else er), w', src', evs @ evs')
               else (Continue, w', src', evs @ evs')))"

text \<open>
  \<open>Close\<close> on a socket: from then on every \<open>Read\<close> of it fails, whatever was still
  to be delivered, and every \<open>Write\<close> of a byte fails.
\<close>

fun closeReader :: "side \<Rightarrow> reader \<Rightarrow> reader" where
  "closeReader sd (ConnReader sd' c) =
     (if sd' = sd then ConnReader sd' (c\<lparr>incoming := [ReadError]\<rparr>) else ConnReader sd' c)"
| "closeReader sd (BufferReader buf) = BufferReader buf"
| "closeReader sd (MultiReader rs) = MultiReader (map (closeReader sd) rs)"

definition closeSink :: "sink \<Rightarrow> sink" where
  "closeSink w = w\<lparr>room := Some 0\<rparr>"

text \<open>
  The three goroutines of the relay. A copy goroutine runs its loop, then holds the
  error that \<open>io.Copy\<close> returned, then has sent it on \<open>errCh\<close> and ended. The handler
  waits on \<open>errCh\<close>, then holds what it received, then has run its deferred
  \<open>backendConn.Close\<close>, then its deferred \<open>conn.Close\<close>.
\<close>

datatype task = Running | Returned "io_error option" | Ended

datatype waiter = Waiting | Received "io_error option" | BackendClosed | Done

text \<open>
  The state of the relay: the two copies with their ends, the channel (buffered, of
  capacity 2), the handler, and the events so far.
\<close>

record relay =
  host :: string
  toBackend :: task
  toBackendSrc :: reader
  toBackendDst :: sink
  toClient :: task
  toClientSrc :: reader
  toClientDst :: sink
  errCh :: "io_error option list"
  handler :: waiter
  trace :: "event list"

datatype goroutine = CopyToBackend | CopyToClient | Handler

text \<open>The state in which \<open>handleConn\<close> has started both goroutines.\<close>

definition startRelay :: "string \<Rightarrow> byte list \<Rightarrow> conn \<Rightarrow> sink \<Rightarrow> conn \<Rightarrow> sink \<Rightarrow> relay" where
  "startRelay sni buf conn connW backendConn backendW =
     \<lparr>host = sni,
      toBackend = Running,
      toBackendSrc = MultiReader [BufferReader buf, ConnReader Client conn],
      toBackendDst = backendW,
      toClient = Running,
      toClientSrc = ConnReader Backend backendConn,
      toClientDst = connW,
      errCh = [],
      handler = Waiting,
      trace = []\<rparr>"

text \<open>
  One step of a goroutine, \<open>None\<close> when it cannot move: a turn of a copy loop; the
  send of the error (which would block only on a full channel); the receive of the
  handler (which blocks on an empty channel), its log line and its two closes.
\<close>

fun step :: "goroutine \<Rightarrow> relay \<Rightarrow> relay option" where
  "step CopyToBackend s =
     (case toBackend s of
        Running \<Rightarrow>
          (case copyOnce Backend (toBackendDst s) (toBackendSrc s) of
             (p, w, src, evs) \<Rightarrow>
               Some (s\<lparr>toBackend := (case p of Continue \<Rightarrow> Running | Return err \<Rightarrow> Returned err),
                       toBackendSrc := src, toBackendDst := w, trace := trace s @ evs\<rparr>))
      | Returned err \<Rightarrow>
          if length (errCh s) < 2
          then Some (s\<lparr>toBackend := Ended, errCh := errCh s @ [err]\<rparr>)
          else None
      | Ended \<Rightarrow> None)"
| "step CopyToClient s =
     (case toClient s of
        Running \<Rightarrow>
          (case copyOnce Client (toClientDst s) (toClientSrc s) of
             (p, w, src, evs) \<Rightarrow>
               Some (s\<lparr>toClient := (case p of Continue \<Rightarrow> Running | Return err \<Rightarrow> Returned err),
                       toClientSrc := src, toClientDst := w, trace := trace s @ evs\<rparr>))
      | Returned err \<Rightarrow>
          if length (errCh s) < 2
          then Some (s\<lparr>toClient := Ended, errCh := errCh s @ [err]\<rparr>)
          else None
      | Ended \<Rightarrow> None)"
| "step Handler s =
     (case handler s of
        Waiting \<Rightarrow>
          (case errCh s of
             [] \<Rightarrow> None
           | err # rest \<Rightarrow> Some (s\<lparr>errCh := rest, handler := Received err\<rparr>))
      | Received err \<Rightarrow>
          Some (s\<lparr>handler := BackendClosed,
                  toBackendDst := closeSink (toBackendDst s),
                  toClientSrc := closeReader Backend (toClientSrc s),
                  trace := trace s
                    @ (if err \<noteq> None \<and> err \<noteq> Some EOF then [LogLine (LogCopyError (host s))] else [])
                    @ [Close Backend]\<rparr>)
      | BackendClosed \<Rightarrow>
          Some (s\<lparr>handler := Done,
                  toClientDst := closeSink (toClientDst s),
                  toBackendSrc := closeReader Client (toBackendSrc s),
                  trace := trace s @ [Close Client]\<rparr>)
      | Done \<Rightarrow> None)"

text \<open>A schedule: the goroutines in the order in which they are given a step.\<close>

fun run :: "goroutine list \<Rightarrow> relay \<Rightarrow> relay" where
  "run [] s = s"
| "run (g # gs) s = (case step g s of None \<Rightarrow> run gs s | Some s' \<Rightarrow> run gs s')"

section \<open>The SNI extractor\<close>

text \<open>
  Modelled from the spec: \<open>ParseClientHello\<close>, which \<open>handleConn\<close> calls and whose
  source file is not among the sources. The spec (4.1) gives the layout it decodes:
  a record header of type, two version bytes and a big-endian payload length; a
  handshake message of type 1 with a three-byte body length; in the body the legacy
  version, 32 random bytes, the length-prefixed session id, cipher suites and
  compression methods, then the extensions block; in the block the extensions of
  two-byte type and two-byte length; in the extension of type 0 a two-byte list
  length and entries of one-byte name type and two-byte length. The prefixes of
  session id, cipher suites and compression methods have the widths of the TLS
  ClientHello: one, two and one byte. A declared length that exceeds the bytes that
  remain gives "not found".

  Reading the buffer is indexing and slicing as in Go: out of range, they panic.
\<close>

datatype 'a parsed = Panic | NotFound | Got 'a

text \<open>\<open>data[i]\<close>.\<close>

definition byteAt :: "byte list \<Rightarrow> nat \<Rightarrow> byte parsed" where
  "byteAt data i = (if i < length data then Got (data ! i) else Panic)"

text \<open>\<open>data[lo:hi]\<close>.\<close>

definition byteSlice :: "byte list \<Rightarrow> nat \<Rightarrow> nat \<Rightarrow> byte list parsed" where
  "byteSlice data lo hi =
     (if lo \<le> hi \<and> hi \<le> length data then Got (take (hi - lo) (drop lo data)) else Panic)"

text \<open>Sequencing: a panic or a "not found" ends the parse.\<close>

definition andThen :: "'a parsed \<Rightarrow> ('a \<Rightarrow> 'b parsed) \<Rightarrow> 'b parsed" where
  "andThen p f = (case p of Panic \<Rightarrow> Panic | NotFound \<Rightarrow> NotFound | Got x \<Rightarrow> f x)"

text \<open>A big-endian unsigned integer.\<close>

definition uintBE :: "byte list \<Rightarrow> nat" where
  "uintBE bs = foldl (\<lambda>n b. n * 256 + unat b) 0 bs"

text \<open>The conversion \<open>string(bytes)\<close>.\<close>

definition stringOf :: "byte list \<Rightarrow> string" where
  "stringOf bs = map (\<lambda>b. char_of (unat b)) bs"

text \<open>The entries of a server-name list: the name of the first entry of name type 0.\<close>

function scanNames :: "byte list \<Rightarrow> byte list parsed" where
  "scanNames entries =
     (if length entries < 3 then NotFound
      else
        case byteAt entries 0 of
          Panic \<Rightarrow> Panic
        | NotFound \<Rightarrow> NotFound
        | Got nameType \<Rightarrow>
            (case byteSlice entries 1 3 of
               Panic \<Rightarrow> Panic
             | NotFound \<Rightarrow> NotFound
             | Got len \<Rightarrow>
                 if length entries < 3 + uintBE len then NotFound
                 else if nameType = 0 then byteSlice entries 3 (3 + uintBE len)
                 else
                   (case byteSlice entries (3 + uintBE len) (length entries) of
                      Panic \<Rightarrow> Panic
                    | NotFound \<Rightarrow> NotFound
                    | Got rest \<Rightarrow> scanNames rest)))"
  by pat_completeness auto
termination
  by (relation "measure length") (auto simp: byteSlice_def split: if_splits)

declare scanNames.simps [simp del]

text \<open>The data of a \<open>server_name\<close> extension: a two-byte list length, then the entries.\<close>

definition serverName :: "byte list \<Rightarrow> byte list parsed" where
  "serverName ext =
     (if length ext < 2 then NotFound
      else
        andThen (byteSlice ext 0 2) (\<lambda>len.
          if length ext < 2 + uintBE len then NotFound
          else andThen (byteSlice ext 2 (2 + uintBE len)) scanNames))"

text \<open>The extensions, one after the other, up to the first of type 0.\<close>

function scanExtensions :: "byte list \<Rightarrow> byte list parsed" where
  "scanExtensions exts =
     (if length exts < 4 then NotFound
      else
        case byteSlice exts 0 2 of
          Panic \<Rightarrow> Panic
        | NotFound \<Rightarrow> NotFound
        | Got extType \<Rightarrow>
            (case byteSlice exts 2 4 of
               Panic \<Rightarrow> Panic
             | NotFound \<Rightarrow> NotFound
             | Got len \<Rightarrow>
                 if length exts < 4 + uintBE len then NotFound
                 else if uintBE extType = 0
                   then andThen (byteSlice exts 4 (4 + uintBE len)) serverName
                 else
                   (case byteSlice exts (4 + uintBE len) (length exts) of
                      Panic \<Rightarrow> Panic
                    | NotFound \<Rightarrow> NotFound
                    | Got rest \<Rightarrow> scanExtensions rest)))"
  by pat_completeness auto
termination
  by (relation "measure length") (auto simp: byteSlice_def split: if_splits)

declare scanExtensions.simps [simp del]

text \<open>Skipping a field with a length prefix of \<open>w\<close> bytes.\<close>

definition skipVector :: "nat \<Rightarrow> byte list \<Rightarrow> byte list parsed" where
  "skipVector w data =
     (if length data < w then NotFound
      else
        andThen (byteSlice data 0 w) (\<lambda>len.
          if length data < w + uintBE len then NotFound
          else byteSlice data (w + uintBE len) (length data)))"

text \<open>The extensions block: a two-byte length, then the extensions.\<close>

definition extensionsBlock :: "byte list \<Rightarrow> byte list parsed" where
  "extensionsBlock data =
     (if length data < 2 then NotFound
      else
        andThen (byteSlice data 0 2) (\<lambda>len.
          if length data < 2 + uintBE len then NotFound
          else andThen (byteSlice data 2 (2 + uintBE len)) scanExtensions))"

text \<open>The body of a ClientHello.\<close>

definition helloBody :: "byte list \<Rightarrow> byte list parsed" where
  "helloBody body =
     (if length body < 34 then NotFound
      else
        andThen (byteSlice body 34 (length body)) (\<lambda>afterRandom.
        andThen (skipVector 1 afterRandom) (\<lambda>afterSession.
        andThen (skipVector 2 afterSession) (\<lambda>afterCiphers.
        andThen (skipVector 1 afterCiphers) extensionsBlock))))"

text \<open>A handshake message that must be a ClientHello.\<close>

definition handshakeMessage :: "byte list \<Rightarrow> byte list parsed" where
  "handshakeMessage payload =
     (if length payload < 4 then NotFound
      else
        andThen (byteAt payload 0) (\<lambda>msgType.
          if msgType \<noteq> 1 then NotFound
          else
            andThen (byteSlice payload 1 4) (\<lambda>len.
              if length payload < 4 + uintBE len then NotFound
              else andThen (byteSlice payload 4 (4 + uintBE len)) helloBody)))"

text \<open>A TLS record that must be a handshake record.\<close>

definition tlsRecord :: "byte list \<Rightarrow> byte list parsed" where
  "tlsRecord data =
     (if length data < 5 then NotFound
      else
        andThen (byteAt data 0) (\<lambda>recType.
          if recType \<noteq> 22 then NotFound
          else
            andThen (byteSlice data 3 5) (\<lambda>len.
              if length data < 5 + uintBE len then NotFound
              else andThen (byteSlice data 5 (5 + uintBE len)) handshakeMessage)))"

text \<open>\<open>ParseClientHello\<close>: the hello with its SNI and the flag "found", or a panic.\<close>

definition ParseClientHello :: "byte list \<Rightarrow> fault + ClientHello \<times> bool" where
  "ParseClientHello data =
     (case tlsRecord data of
        Panic \<Rightarrow> Inl OutOfRange
      | NotFound \<Rightarrow> Inr (\<lparr>SNI = []\<rparr>, False)
      | Got name \<Rightarrow> Inr (\<lparr>SNI = stringOf name\<rparr>, True))"

text \<open>
  The encoding side, for stating what the extractor finds: big-endian lengths.
\<close>

definition be16 :: "nat \<Rightarrow> byte list" where
  "be16 n = [of_nat (n div 256), of_nat (n mod 256)]"



definition encodeNames :: "(byte \<times> byte list) list \<Rightarrow> byte list" where
  "encodeNames entries = concat (map (\<lambda>(t, name). t # be16 (length name) @ name) entries)"








text \<open>
  The buffers that carry a name, layer by layer. An entry list carries \<open>H\<close> when,
  after entries of other name types, it has an entry of name type 0 with name \<open>H\<close>;
  the data of a \<open>server_name\<close> extension, when its list does; a sequence of
  extensions, when, after extensions of other types, it has an extension of type 0
  whose data does; and so on for the extensions block, the body, the handshake
  message and the record. At every layer each declared length is the length of the
  field that follows it, and what follows the field is arbitrary.
\<close>

definition namesCarry :: "byte list \<Rightarrow> byte list \<Rightarrow> bool" where
  "namesCarry entries H =
     (\<exists>skipped tail.
        entries = encodeNames skipped @ 0 # be16 (length H) @ H @ tail
      \<and> (\<forall>e\<in>set skipped. fst e \<noteq> 0 \<and> length (snd e) < 65536)
      \<and> length H < 65536)"













definition sampleHello :: "byte list" where
  "sampleHello =
     [22, 3, 1, 0, 68,
      1, 0, 0, 64,
      3, 3,
      7, 7, 7, 7, 7, 7, 7, 7, 7, 7, 7, 7, 7, 7, 7, 7,
      7, 7, 7, 7, 7, 7, 7, 7, 7, 7, 7, 7, 7, 7, 7, 7,
      0,
      0, 2, 19, 1,
      1, 0,
      0, 21,
      0, 10, 0, 2, 0, 23,
      0, 0, 0, 11, 0, 9, 0, 0, 6, 97, 46, 116, 101, 115, 116]"


section \<open>Observations\<close>

text \<open>
  What the claims speak of, read off a socket and off a list of events: the bytes a
  socket will deliver before it fails or ends, and the bytes written to one side.
\<close>

fun stream :: "delivery list \<Rightarrow> byte list" where
  "stream [] = []"
| "stream (Data bs # ds) = bs @ stream ds"
| "stream (ReadError # ds) = []"

fun written :: "side \<Rightarrow> event list \<Rightarrow> byte list" where
  "written sd [] = []"
| "written sd (SockWrite sd' bs # evs) = (if sd' = sd then bs @ written sd evs else written sd evs)"
| "written sd (e # evs) = written sd evs"

text \<open>An event that is a \<open>Read\<close> on a socket.\<close>

fun isRead :: "event \<Rightarrow> bool" where
  "isRead (SockRead sd d bs) = True"
| "isRead e = False"

text \<open>
  An event that reaches out of the handler: creating a dialer, connecting, asking a
  proxy for a tunnel, writing to a socket.
\<close>

fun reachesOut :: "event \<Rightarrow> bool" where
  "reachesOut (CallCreateDialer a) = True"
| "reachesOut (Connect nw a) = True"
| "reachesOut (SocksConnect p a) = True"
| "reachesOut (SockWrite sd bs) = True"
| "reachesOut e = False"

text \<open>
  The bytes a reader will yield, and whether it ends in an error. A multi-reader stops
  at the first of its readers that fails.
\<close>

fun failing :: "reader \<Rightarrow> bool" where
  "failing (ConnReader sd c) = (ReadError \<in> set (incoming c))"
| "failing (BufferReader buf) = False"
| "failing (MultiReader []) = False"
| "failing (MultiReader (r # rs)) = (failing r \<or> failing (MultiReader rs))"

fun content :: "reader \<Rightarrow> byte list" where
  "content (ConnReader sd c) = stream (incoming c)"
| "content (BufferReader buf) = buf"
| "content (MultiReader []) = []"
| "content (MultiReader (r # rs)) =
     content r @ (if failing r then [] else content (MultiReader rs))"

text \<open>A reader none of whose sockets has a read deadline; an event not under one.\<close>

fun deadlineFree :: "reader \<Rightarrow> bool" where
  "deadlineFree (ConnReader sd c) = (readDeadline c = None)"
| "deadlineFree (BufferReader buf) = True"
| "deadlineFree (MultiReader []) = True"
| "deadlineFree (MultiReader (r # rs)) = (deadlineFree r \<and> deadlineFree (MultiReader rs))"

fun unhurried :: "event \<Rightarrow> bool" where
  "unhurried (SockRead sd d bs) = (d = None)"
| "unhurried e = True"

text \<open>
  Concrete surroundings for the examples: a network where every address accepts, one
  where none does, a client that sends the ClientHello for \<open>a.test\<close> in two pieces, followed by three
  more bytes, and a table with the one route \<open>a.test=:9001\<close>.
\<close>

definition openNetwork :: network where
  "openNetwork = \<lparr>accepts = (\<lambda>addr. True), tunnels = (\<lambda>proxyAddr addr. True)\<rparr>"

definition closedNetwork :: network where
  "closedNetwork = \<lparr>accepts = (\<lambda>addr. False), tunnels = (\<lambda>proxyAddr addr. False)\<rparr>"

definition sampleConn :: conn where
  "sampleConn = \<lparr>incoming = [Data (take 3 sampleHello), Data (drop 3 sampleHello @ [9, 9]), Data [8]],
                  readDeadline = None\<rparr>"

definition sampleRoutes :: RouteMap where
  "sampleRoutes = \<lparr>rules = [''a.test'' \<mapsto>
      \<lparr>Host = ''a.test'', Target = ''localhost:9001'', Passthrough = False, ProxyAddr = []\<rparr>]\<rparr>"

text \<open>An event that reads or writes a socket.\<close>

fun isIO :: "event \<Rightarrow> bool" where
  "isIO (SockRead sd d bs) = True"
| "isIO (SockWrite sd bs) = True"
| "isIO e = False"

text \<open>The number of copies that have ended, and what every state of the relay satisfies.\<close>

definition ended :: "relay \<Rightarrow> nat" where
  "ended s = (if toBackend s = Ended then 1 else 0) + (if toClient s = Ended then 1 else 0)"

definition relayInv :: "relay \<Rightarrow> bool" where
  "relayInv s =
     (length (errCh s) + (if handler s = Waiting then 0 else 1) = ended s
      \<and> (Close Backend \<in> set (trace s) \<longleftrightarrow> handler s = BackendClosed \<or> handler s = Done)
      \<and> (Close Client \<in> set (trace s) \<longleftrightarrow> handler s = Done)
      \<and> (handler s = BackendClosed \<or> handler s = Done \<longrightarrow> room (toBackendDst s) = Some 0)
      \<and> (handler s = Done \<longrightarrow> room (toClientDst s) = Some 0))"

text \<open>
  A reader whose sockets are closed: every one of them fails at its next \<open>Read\<close> and
  has nothing else to deliver. A reader all of whose sockets are those of one side.
\<close>

fun shut :: "reader \<Rightarrow> bool" where
  "shut (ConnReader sd c) = (incoming c = [ReadError])"
| "shut (BufferReader buf) = True"
| "shut (MultiReader []) = True"
| "shut (MultiReader (r # rs)) = (shut r \<and> shut (MultiReader rs))"

fun readsOnly :: "side \<Rightarrow> reader \<Rightarrow> bool" where
  "readsOnly sd (ConnReader sd' c) = (sd' = sd)"
| "readsOnly sd (BufferReader buf) = True"
| "readsOnly sd (MultiReader []) = True"
| "readsOnly sd (MultiReader (r # rs)) = (readsOnly sd r \<and> readsOnly sd (MultiReader rs))"

text \<open>The bytes that the reads and writes of a list of events have moved.\<close>

fun moved :: "event list \<Rightarrow> byte list" where
  "moved [] = []"
| "moved (SockRead sd d bs # evs) = bs @ moved evs"
| "moved (SockWrite sd bs # evs) = bs @ moved evs"
| "moved (e # evs) = moved evs"

text \<open>
  What every state of the relay satisfies about the read ends: each copy reads only
  the socket of its side, and a socket that the handler has closed is closed for its
  reader. And the state after the teardown: the handler is done and both sockets are
  closed for reading and writing.
\<close>

definition relayEnds :: "relay \<Rightarrow> bool" where
  "relayEnds s =
     (readsOnly Client (toBackendSrc s) \<and> readsOnly Backend (toClientSrc s)
      \<and> (handler s = BackendClosed \<or> handler s = Done \<longrightarrow> shut (toClientSrc s))
      \<and> (handler s = Done \<longrightarrow> shut (toBackendSrc s)))"

definition torn :: "relay \<Rightarrow> bool" where
  "torn s =
     (handler s = Done
      \<and> room (toBackendDst s) = Some 0 \<and> room (toClientDst s) = Some 0
      \<and> shut (toBackendSrc s) \<and> shut (toClientSrc s))"

text \<open>A relay with three buffered bytes, three more bytes pending from the client, and two from the backend.\<close>

definition sampleRelay :: relay where
  "sampleRelay =
     startRelay ''a.test'' [1, 2, 3]
       \<lparr>incoming = [Data [4, 5], Data [6]], readDeadline = None\<rparr> \<lparr>room = None\<rparr>
       \<lparr>incoming = [Data [7, 8]], readDeadline = None\<rparr> \<lparr>room = None\<rparr>"

section \<open>Route strings\<close>

lemma parseRoute_example_passthrough:
  "parseRoute ''example.com'' =
     Inr \<lparr>Host = ''example.com'', Target = [], Passthrough = True, ProxyAddr = []\<rparr>"
  by code_simp

lemma parseRoute_example_port:
  "parseRoute ''example.com=:8080'' =
     Inr \<lparr>Host = ''example.com'', Target = ''localhost:8080'', Passthrough = False,
          ProxyAddr = []\<rparr>"
  by code_simp

lemma parseRoute_example_proxy:
  "parseRoute ''example.com=backend.local:443@127.0.0.1:1080'' =
     Inr \<lparr>Host = ''example.com'', Target = ''backend.local:443'', Passthrough = False,
          ProxyAddr = ''127.0.0.1:1080''\<rparr>"
  by code_simp

lemma parseRoute_example_old_format:
  "parseRoute ''example.com:443'' = Inl (InvalidFormat ''example.com:443'')"
  by code_simp

lemma parseRoute_example_empty_target:
  "parseRoute ''example.com='' = Inl TargetRequired"
  by code_simp

text \<open>
  Claim C4. \<open>parseRoute\<close> on the five documented inputs: \<open>example.com\<close> is a
  passthrough route with no target and no proxy; \<open>example.com=:8080\<close> is routed to
  \<open>localhost:8080\<close>; \<open>example.com=backend.local:443@127.0.0.1:1080\<close> is routed to
  \<open>backend.local:443\<close> through the proxy \<open>127.0.0.1:1080\<close>; \<open>example.com:443\<close> is
  refused as the old format; \<open>example.com=\<close> is refused for its empty target.
\<close>

theorem parseRoute_examples:
  "parseRoute ''example.com'' =
     Inr \<lparr>Host = ''example.com'', Target = [], Passthrough = True, ProxyAddr = []\<rparr>
   \<and> parseRoute ''example.com=:8080'' =
     Inr \<lparr>Host = ''example.com'', Target = ''localhost:8080'', Passthrough = False,
          ProxyAddr = []\<rparr>
   \<and> parseRoute ''example.com=backend.local:443@127.0.0.1:1080'' =
     Inr \<lparr>Host = ''example.com'', Target = ''backend.local:443'', Passthrough = False,
          ProxyAddr = ''127.0.0.1:1080''\<rparr>
   \<and> parseRoute ''example.com:443'' = Inl (InvalidFormat ''example.com:443'')
   \<and> parseRoute ''example.com='' = Inl TargetRequired"
  using parseRoute_example_passthrough parseRoute_example_port parseRoute_example_proxy
    parseRoute_example_old_format parseRoute_example_empty_target
  by blast

text \<open>\<open>parseRoute\<close> is the proxy part followed by \<open>parseRemainder\<close>.\<close>

lemma parseRoute_parseRemainder:
  "parseRoute route =
     (case LastIndex route CHR ''@'' of
        None \<Rightarrow> parseRemainder route [] route
      | Some idx \<Rightarrow>
          (let proxyAddr = TrimSpace (drop (idx + 1) route)
           in if proxyAddr = [] then parseRemainder route [] (TrimSpace (take idx route))
              else case SplitHostPort proxyAddr of
                     Inl err \<Rightarrow> Inl (InvalidProxy proxyAddr err)
                   | Inr x \<Rightarrow> parseRemainder route proxyAddr (TrimSpace (take idx route))))"
  by (simp add: parseRoute_def parseRemainder_def Let_def split: option.splits sum.splits)

text \<open>
  Trimming: what is trimmed is a part of the string, and trimming again changes
  nothing.
\<close>

lemma runeWidth_0_iff:
  "runeWidth runes s = 0 \<longleftrightarrow> (\<forall>r\<in>set runes. r = [] \<or> take (length r) s \<noteq> r)"
proof (cases "find (\<lambda>r. r \<noteq> [] \<and> take (length r) s = r) runes")
  case None
  then have "\<forall>r\<in>set runes. r = [] \<or> take (length r) s \<noteq> r"
    by (auto simp: find_None_iff)
  moreover from None have "runeWidth runes s = 0" by (simp add: runeWidth_def)
  ultimately show ?thesis by simp
next
  case (Some r)
  then have "r \<in> set runes" "r \<noteq> []" "take (length r) s = r"
    by (auto simp: find_Some_iff)
  moreover from Some have "runeWidth runes s = length r" by (simp add: runeWidth_def)
  ultimately show ?thesis by auto
qed

lemma TrimLeftRunes_width: "runeWidth runes (TrimLeftRunes runes s) = 0"
proof (induction "length s" arbitrary: s rule: less_induct)
  case less
  show ?case
  proof (cases "runeWidth runes s = 0")
    case True
    then show ?thesis by (subst TrimLeftRunes.simps) simp
  next
    case False
    have "runeWidth runes s \<le> length s" by (rule runeWidth_le)
    with False have "length (drop (runeWidth runes s) s) < length s" by simp
    from less [OF this] False show ?thesis by (subst TrimLeftRunes.simps) simp
  qed
qed

lemma TrimLeftRunes_id: "runeWidth runes s = 0 \<Longrightarrow> TrimLeftRunes runes s = s"
  by (subst TrimLeftRunes.simps) simp

lemma TrimLeftRunes_suffix: "\<exists>pre. s = pre @ TrimLeftRunes runes s"
proof (induction "length s" arbitrary: s rule: less_induct)
  case less
  show ?case
  proof (cases "runeWidth runes s = 0")
    case True
    then have "TrimLeftRunes runes s = s" by (rule TrimLeftRunes_id)
    then show ?thesis by simp
  next
    case False
    have "runeWidth runes s \<le> length s" by (rule runeWidth_le)
    with False have "length (drop (runeWidth runes s) s) < length s" by simp
    from less [OF this] obtain pre where
      pre: "drop (runeWidth runes s) s = pre @ TrimLeftRunes runes (drop (runeWidth runes s) s)"
      by blast
    from False have eq: "TrimLeftRunes runes s = TrimLeftRunes runes (drop (runeWidth runes s) s)"
      by (subst TrimLeftRunes.simps) simp
    have "s = take (runeWidth runes s) s @ drop (runeWidth runes s) s" by simp
    also have "\<dots> = (take (runeWidth runes s) s @ pre) @ TrimLeftRunes runes s"
      using pre eq by simp
    finally show ?thesis by blast
  qed
qed

lemma runeWidth_prefix:
  assumes "runeWidth runes (t @ post) = 0"
  shows "runeWidth runes t = 0"
proof -
  have "r = [] \<or> take (length r) t \<noteq> r" if r: "r \<in> set runes" for r
  proof (rule ccontr)
    assume "\<not> (r = [] \<or> take (length r) t \<noteq> r)"
    then have ne: "r \<noteq> []" and tk: "take (length r) t = r" by auto
    from tk have "length (take (length r) t) = length r" by simp
    then have "length r \<le> length t" by simp
    with tk have "take (length r) (t @ post) = r" by simp
    with assms r ne show False by (auto simp: runeWidth_0_iff)
  qed
  then show ?thesis by (simp add: runeWidth_0_iff)
qed

lemma TrimSpace_prefix_suffix: "\<exists>pre post. s = pre @ TrimSpace s @ post"
proof -
  obtain pre where pre: "s = pre @ TrimLeftRunes spaceRunes s"
    using TrimLeftRunes_suffix by blast
  obtain q where q: "rev (TrimLeftRunes spaceRunes s) =
      q @ TrimLeftRunes (map rev spaceRunes) (rev (TrimLeftRunes spaceRunes s))"
    using TrimLeftRunes_suffix by blast
  then have "rev (rev (TrimLeftRunes spaceRunes s)) = rev (q @ rev (TrimSpace s))"
    by (simp add: TrimSpace_def TrimRightRunes_def)
  then have "TrimLeftRunes spaceRunes s = TrimSpace s @ rev q" by simp
  with pre have "s = pre @ TrimSpace s @ rev q" by simp
  then show ?thesis by blast
qed

lemma TrimSpace_set: "set (TrimSpace s) \<subseteq> set s"
proof -
  obtain pre post where "s = pre @ TrimSpace s @ post"
    using TrimSpace_prefix_suffix by blast
  then have "set s = set pre \<union> set (TrimSpace s) \<union> set post"
    by (metis set_append sup_assoc)
  then show ?thesis by blast
qed

lemma TrimSpace_idem: "TrimSpace (TrimSpace s) = TrimSpace s"
proof -
  let ?u = "TrimLeftRunes spaceRunes s"
  let ?t = "TrimSpace s"
  have wu: "runeWidth spaceRunes ?u = 0" by (rule TrimLeftRunes_width)
  obtain q where q: "rev ?u = q @ TrimLeftRunes (map rev spaceRunes) (rev ?u)"
    using TrimLeftRunes_suffix by blast
  then have "rev (rev ?u) = rev (q @ rev ?t)"
    by (simp add: TrimSpace_def TrimRightRunes_def)
  then have u: "?u = ?t @ rev q" by simp
  from wu u have "runeWidth spaceRunes (?t @ rev q) = 0" by simp
  then have "runeWidth spaceRunes ?t = 0" by (rule runeWidth_prefix)
  then have l: "TrimLeftRunes spaceRunes ?t = ?t" by (rule TrimLeftRunes_id)
  have rt: "rev ?t = TrimLeftRunes (map rev spaceRunes) (rev ?u)"
    by (simp add: TrimSpace_def TrimRightRunes_def)
  have "runeWidth (map rev spaceRunes) (rev ?t) = 0"
    unfolding rt by (rule TrimLeftRunes_width)
  then have "TrimLeftRunes (map rev spaceRunes) (rev ?t) = rev ?t" by (rule TrimLeftRunes_id)
  then have "TrimRightRunes spaceRunes ?t = ?t" by (simp add: TrimRightRunes_def)
  with l show ?thesis by (simp add: TrimSpace_def [of "TrimSpace s"])
qed

lemma LastIndex_None: "LastIndex s c = None \<longleftrightarrow> c \<notin> set s"
  by (induction s) (auto split: option.splits)

lemma IndexByte_None: "IndexByte s c = None \<longleftrightarrow> c \<notin> set s"
  by (induction s) auto

lemma LastIndex_take: "LastIndex s c = Some idx \<Longrightarrow> idx < length s \<and> s ! idx = c \<and> c \<notin> set (drop (Suc idx) s)"
proof (induction s arbitrary: idx)
  case Nil
  then show ?case by simp
next
  case (Cons x xs)
  show ?case
  proof (cases "LastIndex xs c")
    case None
    with Cons.prems have "x = c" "idx = 0" by (auto split: if_splits)
    with None show ?thesis by (simp add: LastIndex_None)
  next
    case (Some k)
    with Cons.prems have "idx = Suc k" by simp
    with Cons.IH [OF Some] show ?thesis by simp
  qed
qed

text \<open>
  White space around a string does not count: the white-space runes are cut off the
  front and the end in one way only, so that trimming a string with white space
  before and after it gives the same as trimming the string.
\<close>

lemma spaceRunes_prefixFree: "prefixFree spaceRunes"
  by (simp add: prefixFree_def spaceRunes_def)

lemma spaceRunes_suffixFree: "prefixFree (map rev spaceRunes)"
  by (simp add: prefixFree_def spaceRunes_def)

lemma spaceRunes_separated: "separated spaceRunes"
  by (simp add: separated_def spaceRunes_def)

lemma runeWidth_rune:
  assumes pf: "prefixFree runes" and r: "r \<in> set runes"
  shows "runeWidth runes (r @ y) = length r"
proof -
  let ?P = "\<lambda>r'. r' \<noteq> [] \<and> take (length r') (r @ y) = r'"
  from pf r have ne: "r \<noteq> []" by (simp add: prefixFree_def)
  then have "?P r" by simp
  with r have "find ?P runes \<noteq> None" by (auto simp: find_None_iff)
  then obtain r' where f: "find ?P runes = Some r'" by auto
  then have r': "r' \<in> set runes" "r' \<noteq> []" "take (length r') (r @ y) = r'"
    by (auto simp: find_Some_iff)
  have "r' = r"
  proof (cases "length r' \<le> length r")
    case True
    with r'(3) have "take (length r') r = r'" by simp
    with pf r r' show ?thesis by (auto simp: prefixFree_def)
  next
    case False
    have "take (length r) r' = take (length r) (take (length r') (r @ y))"
      using r'(3) by simp
    also have "\<dots> = r" using False by (simp add: min_def)
    finally have "take (length r) r' = r" .
    with pf r r' show ?thesis by (auto simp: prefixFree_def)
  qed
  with f show ?thesis by (simp add: runeWidth_def)
qed

lemma TrimLeftRunes_runes:
  assumes pf: "prefixFree runes" and rs: "set rs \<subseteq> set runes"
  shows "TrimLeftRunes runes (concat rs @ x) = TrimLeftRunes runes x"
  using rs
proof (induction rs)
  case Nil
  show ?case by simp
next
  case (Cons r rs)
  then have r: "r \<in> set runes" and rs: "set rs \<subseteq> set runes" by simp_all
  from pf r have ne: "r \<noteq> []" by (simp add: prefixFree_def)
  have w: "runeWidth runes (r @ concat rs @ x) = length r"
    using runeWidth_rune [OF pf r] .
  have "TrimLeftRunes runes (concat (r # rs) @ x) = TrimLeftRunes runes (r @ concat rs @ x)"
    by simp
  also have "\<dots> = TrimLeftRunes runes (drop (length r) (r @ concat rs @ x))"
    using w ne by (subst TrimLeftRunes.simps) simp
  also have "\<dots> = TrimLeftRunes runes (concat rs @ x)" by simp
  also have "\<dots> = TrimLeftRunes runes x" using Cons.IH [OF rs] .
  finally show ?case .
qed

lemma runeWidth_take:
  assumes "runeWidth runes s \<noteq> 0"
  shows "take (runeWidth runes s) s \<in> set runes"
proof -
  let ?P = "\<lambda>r. r \<noteq> [] \<and> take (length r) s = r"
  from assms obtain r where f: "find ?P runes = Some r"
    by (cases "find ?P runes") (auto simp: runeWidth_def)
  then have "r \<in> set runes" "take (length r) s = r"
    by (auto simp: find_Some_iff)
  moreover from f have "runeWidth runes s = length r" by (simp add: runeWidth_def)
  ultimately show ?thesis by simp
qed

lemma TrimLeftRunes_split:
  "\<exists>rs. set rs \<subseteq> set runes \<and> s = concat rs @ TrimLeftRunes runes s"
proof (induction "length s" arbitrary: s rule: less_induct)
  case less
  show ?case
  proof (cases "runeWidth runes s = 0")
    case True
    then have "TrimLeftRunes runes s = s" by (rule TrimLeftRunes_id)
    then have "set [] \<subseteq> set runes \<and> s = concat [] @ TrimLeftRunes runes s" by simp
    then show ?thesis by blast
  next
    case False
    let ?w = "runeWidth runes s"
    have "?w \<le> length s" by (rule runeWidth_le)
    with False have "length (drop ?w s) < length s" by simp
    from less [OF this] obtain rs where rs: "set rs \<subseteq> set runes"
      and d: "drop ?w s = concat rs @ TrimLeftRunes runes (drop ?w s)"
      by blast
    from False have eq: "TrimLeftRunes runes s = TrimLeftRunes runes (drop ?w s)"
      by (subst TrimLeftRunes.simps) simp
    have "s = take ?w s @ drop ?w s" by simp
    also have "\<dots> = concat (take ?w s # rs) @ TrimLeftRunes runes s"
      using d eq by simp
    finally have "s = concat (take ?w s # rs) @ TrimLeftRunes runes s" .
    moreover have "set (take ?w s # rs) \<subseteq> set runes"
      using rs runeWidth_take [OF False] by simp
    ultimately show ?thesis by blast
  qed
qed

lemma TrimRightRunes_split:
  "\<exists>qs. set qs \<subseteq> set runes \<and> s = TrimRightRunes runes s @ concat qs"
proof -
  from TrimLeftRunes_split [of "map rev runes" "rev s"]
  obtain rs where rs: "set rs \<subseteq> set (map rev runes)"
    and e: "rev s = concat rs @ TrimLeftRunes (map rev runes) (rev s)"
    by blast
  from e have "rev (rev s) = rev (concat rs @ TrimLeftRunes (map rev runes) (rev s))"
    by simp
  then have "s = TrimRightRunes runes s @ rev (concat rs)"
    by (simp add: TrimRightRunes_def)
  also have "rev (concat rs) = concat (map rev (rev rs))"
    by (simp add: rev_concat rev_map)
  finally have "s = TrimRightRunes runes s @ concat (map rev (rev rs))" .
  moreover have "set (map rev (rev rs)) \<subseteq> set runes"
    using rs by auto
  ultimately show ?thesis by blast
qed

lemma TrimRightRunes_runes:
  assumes pf: "prefixFree (map rev runes)" and qs: "set qs \<subseteq> set runes"
  shows "TrimRightRunes runes (x @ concat qs) = TrimRightRunes runes x"
proof -
  have "rev (x @ concat qs) = concat (map rev (rev qs)) @ rev x"
    by (simp add: rev_concat rev_map)
  moreover have "set (map rev (rev qs)) \<subseteq> set (map rev runes)"
    using qs by auto
  ultimately show ?thesis
    using TrimLeftRunes_runes [OF pf, of "map rev (rev qs)" "rev x"]
    by (simp add: TrimRightRunes_def)
qed

lemma runeWidth_no_straddle:
  assumes sep: "separated runes" and pf: "prefixFree runes"
    and m: "runeWidth runes m = 0" "m \<noteq> []"
    and qs: "set qs \<subseteq> set runes"
  shows "runeWidth runes (m @ concat qs) = 0"
proof -
  have "r = [] \<or> take (length r) (m @ concat qs) \<noteq> r" if r: "r \<in> set runes" for r
  proof (rule ccontr)
    assume "\<not> (r = [] \<or> take (length r) (m @ concat qs) \<noteq> r)"
    then have ne: "r \<noteq> []" and tk: "take (length r) (m @ concat qs) = r" by auto
    show False
    proof (cases "length r \<le> length m")
      case True
      with tk have "take (length r) m = r" by simp
      with m(1) r ne show False by (auto simp: runeWidth_0_iff)
    next
      case False
      then have lm: "length m < length r" by simp
      have c: "concat qs \<noteq> []"
      proof
        assume e: "concat qs = []"
        from tk have "take (length r) m = r" unfolding e by simp
        then have "length (take (length r) m) = length r" by simp
        with lm show False by simp
      qed
      then obtain q qs' where q: "q \<in> set runes" "q \<noteq> []" "hd (concat qs) = hd q"
      proof -
        from c obtain q where "q \<in> set qs" by (cases qs) auto
        have "\<exists>q\<in>set runes. q \<noteq> [] \<and> hd (concat qs) = hd q"
          using qs c
        proof (induction qs)
          case Nil
          then show ?case by simp
        next
          case (Cons a qs)
          from Cons.prems(1) have a: "a \<in> set runes" by simp
          with pf have "a \<noteq> []" by (simp add: prefixFree_def)
          with a show ?case by auto
        qed
        with that show ?thesis by blast
      qed
      have "r ! length m = take (length r) (m @ concat qs) ! length m"
        using tk by simp
      also have "\<dots> = (m @ concat qs) ! length m"
        using lm by (rule nth_take)
      also have "\<dots> = concat qs ! 0"
        by (simp add: nth_append)
      also have "\<dots> = hd (concat qs)"
        using c by (simp add: hd_conv_nth)
      finally have e: "r ! length m = hd q" using q(3) by simp
      from m(2) obtain k where k: "length m = Suc k" by (cases m) auto
      with lm have kl: "k < length (tl r)" by simp
      then have "tl r ! k = r ! Suc k" by (rule nth_tl)
      moreover from kl have "tl r ! k \<in> set (tl r)" by (rule nth_mem)
      ultimately have "r ! length m \<in> set (tl r)" using k by simp
      with e sep r q(1) show False by (auto simp: separated_def)
    qed
  qed
  then show ?thesis by (simp add: runeWidth_0_iff)
qed

lemma TrimSpace_around:
  assumes ps: "set ps \<subseteq> set spaceRunes" and qs: "set qs \<subseteq> set spaceRunes"
  shows "TrimSpace (concat ps @ s @ concat qs) = TrimSpace s"
proof -
  note pf = spaceRunes_prefixFree and sf = spaceRunes_suffixFree and sep = spaceRunes_separated
  let ?L = "TrimLeftRunes spaceRunes" and ?R = "TrimRightRunes spaceRunes"
  obtain as where as: "set as \<subseteq> set spaceRunes" and s: "s = concat as @ ?L s"
    using TrimLeftRunes_split by blast
  have "?L (concat ps @ s @ concat qs) = ?L (s @ concat qs)"
    using ps by (rule TrimLeftRunes_runes [OF pf])
  also have "\<dots> = ?L (concat as @ (?L s @ concat qs))"
    using s by (metis append_assoc)
  also have "\<dots> = ?L (?L s @ concat qs)"
    using as by (rule TrimLeftRunes_runes [OF pf])
  finally have l: "?L (concat ps @ s @ concat qs) = ?L (?L s @ concat qs)" .
  show ?thesis
  proof (cases "?L s = []")
    case True
    have "?L (concat qs @ []) = ?L []"
      using qs by (rule TrimLeftRunes_runes [OF pf])
    also have "\<dots> = []" by (subst TrimLeftRunes.simps) (simp add: runeWidth_0_iff)
    finally have "?L (concat qs) = []" by simp
    with l True show ?thesis by (simp add: TrimSpace_def)
  next
    case False
    have "runeWidth spaceRunes (?L s) = 0" by (rule TrimLeftRunes_width)
    from runeWidth_no_straddle [OF sep pf this False qs]
    have "?L (?L s @ concat qs) = ?L s @ concat qs" by (rule TrimLeftRunes_id)
    with l have "?R (?L (concat ps @ s @ concat qs)) = ?R (?L s @ concat qs)" by simp
    also have "\<dots> = ?R (?L s)"
      using qs by (rule TrimRightRunes_runes [OF sf])
    finally show ?thesis by (simp add: TrimSpace_def)
  qed
qed

lemma TrimSpace_split:
  "\<exists>ps qs. set ps \<subseteq> set spaceRunes \<and> set qs \<subseteq> set spaceRunes
      \<and> s = concat ps @ TrimSpace s @ concat qs"
proof -
  obtain ps where ps: "set ps \<subseteq> set spaceRunes"
    and s: "s = concat ps @ TrimLeftRunes spaceRunes s"
    using TrimLeftRunes_split by blast
  obtain qs where qs: "set qs \<subseteq> set spaceRunes"
    and t: "TrimLeftRunes spaceRunes s
        = TrimRightRunes spaceRunes (TrimLeftRunes spaceRunes s) @ concat qs"
    using TrimRightRunes_split by blast
  from s t have "s = concat ps @ TrimSpace s @ concat qs"
    by (simp add: TrimSpace_def)
  with ps qs show ?thesis by blast
qed

text \<open>
  So \<open>parseRemainder\<close> gives the same for a remainder and for the remainder trimmed:
  the remainder has the same colons and equals signs, and its parts around the first
  equals sign trim to the same.
\<close>

lemma spaceRunes_bytes:
  assumes "set ps \<subseteq> set spaceRunes"
  shows "CHR ''='' \<notin> set (concat ps)" "CHR '':'' \<notin> set (concat ps)"
    "CHR ''@'' \<notin> set (concat ps)"
proof -
  have "\<forall>r\<in>set spaceRunes. CHR ''='' \<notin> set r \<and> CHR '':'' \<notin> set r \<and> CHR ''@'' \<notin> set r"
    by (simp add: spaceRunes_def)
  with assms show "CHR ''='' \<notin> set (concat ps)" "CHR '':'' \<notin> set (concat ps)"
    "CHR ''@'' \<notin> set (concat ps)"
    by auto
qed

lemma Contains_set: "Contains s c \<longleftrightarrow> c \<in> set s"
  by (simp add: Contains_def IndexByte_None)

lemma IndexByte_Some:
  "IndexByte s c = Some i \<Longrightarrow> i < length s"
  by (induction s arbitrary: i) (auto split: if_splits)

lemma IndexByte_append_right:
  "IndexByte s c = Some i \<Longrightarrow> IndexByte (s @ ys) c = Some i"
  by (induction s arbitrary: i) (auto split: if_splits)

lemma IndexByte_append_left:
  "c \<notin> set xs \<Longrightarrow> IndexByte ys c = Some i \<Longrightarrow> IndexByte (xs @ ys) c = Some (length xs + i)"
  by (induction xs) auto

lemma SplitN2_around:
  assumes p: "c \<notin> set pre" and t: "c \<in> set t"
  shows "SplitN2 (pre @ t @ post) c ! 0 = pre @ SplitN2 t c ! 0"
    and "SplitN2 (pre @ t @ post) c ! 1 = SplitN2 t c ! 1 @ post"
proof -
  from t obtain i where i: "IndexByte t c = Some i"
    by (cases "IndexByte t c") (auto simp: IndexByte_None)
  then have il: "i < length t" by (rule IndexByte_Some)
  from i have "IndexByte (t @ post) c = Some i" by (rule IndexByte_append_right)
  with p have j: "IndexByte (pre @ t @ post) c = Some (length pre + i)"
    by (rule IndexByte_append_left)
  have a: "take (length pre + i) (pre @ t @ post) = pre @ take i t"
    using il by auto
  have "drop (Suc (length pre + i)) (pre @ t @ post) = drop (Suc i) (t @ post)"
    by simp
  also have "\<dots> = drop (Suc i) t @ post" using il by auto
  finally have b: "drop (Suc (length pre + i)) (pre @ t @ post) = drop (Suc i) t @ post" .
  have n: "[x, y] ! 0 = x" "[x, y] ! 1 = y" for x y :: string
    by simp_all
  show "SplitN2 (pre @ t @ post) c ! 0 = pre @ SplitN2 t c ! 0"
    by (simp only: SplitN2_def i j option.case a n)
  show "SplitN2 (pre @ t @ post) c ! 1 = SplitN2 t c ! 1 @ post"
    by (simp only: SplitN2_def i j option.case b n)
qed

text \<open>The route string matters only for the wording of the old-format error.\<close>

lemma parseRemainder_route:
  "parseRemainder route proxyAddr remainder =
     (case parseRemainder route' proxyAddr remainder of
        Inl (InvalidFormat given) \<Rightarrow> Inl (InvalidFormat route)
      | result \<Rightarrow> result)"
  by (simp add: parseRemainder_def Let_def split: option.splits sum.splits)

lemma parseRemainder_TrimSpace:
  "parseRemainder route proxyAddr (TrimSpace p) = parseRemainder route proxyAddr p"
proof -
  let ?t = "TrimSpace p"
  obtain ps qs where ps: "set ps \<subseteq> set spaceRunes" and qs: "set qs \<subseteq> set spaceRunes"
    and p: "p = concat ps @ ?t @ concat qs"
    using TrimSpace_split by blast
  have "set p = set (concat ps) \<union> set ?t \<union> set (concat qs)"
    using p by (metis set_append sup_assoc)
  with spaceRunes_bytes [OF ps] spaceRunes_bytes [OF qs]
  have eq: "CHR ''='' \<in> set ?t \<longleftrightarrow> CHR ''='' \<in> set p"
    and colon: "CHR '':'' \<in> set ?t \<longleftrightarrow> CHR '':'' \<in> set p"
    by auto
  have c1: "Contains ?t CHR ''='' = Contains p CHR ''=''"
    and c2: "Contains ?t CHR '':'' = Contains p CHR '':''"
    using eq colon by (simp_all add: Contains_set)
  show ?thesis
  proof (cases "Contains p CHR ''=''")
    case False
    with c1 c2 show ?thesis
      by (simp add: parseRemainder_def Let_def TrimSpace_idem)
  next
    case True
    then have "CHR ''='' \<in> set ?t" using eq by (simp add: Contains_set)
    from SplitN2_around [OF spaceRunes_bytes(1) [OF ps] this, of "concat qs"]
    have s0: "SplitN2 p CHR ''='' ! 0 = concat ps @ SplitN2 ?t CHR ''='' ! 0"
      and s1: "SplitN2 p CHR ''='' ! 1 = SplitN2 ?t CHR ''='' ! 1 @ concat qs"
      using p by simp_all
    have "TrimSpace (concat ps @ SplitN2 ?t CHR ''='' ! 0 @ concat [])
        = TrimSpace (SplitN2 ?t CHR ''='' ! 0)"
      using ps by (intro TrimSpace_around) simp_all
    then have h: "TrimSpace (SplitN2 ?t CHR ''='' ! 0) = TrimSpace (SplitN2 p CHR ''='' ! 0)"
      unfolding s0 by simp
    have "TrimSpace (concat [] @ SplitN2 ?t CHR ''='' ! 1 @ concat qs)
        = TrimSpace (SplitN2 ?t CHR ''='' ! 1)"
      using qs by (intro TrimSpace_around) simp_all
    then have g: "TrimSpace (SplitN2 ?t CHR ''='' ! 1) = TrimSpace (SplitN2 p CHR ''='' ! 1)"
      unfolding s1 by simp
    show ?thesis
      unfolding parseRemainder_def Let_def c1 c2 h g TrimSpace_idem ..
  qed
qed

lemma parseRemainder_trim:
  "parseRemainder route proxyAddr (TrimSpace p) =
     (case parseRemainder route' proxyAddr p of
        Inl (InvalidFormat given) \<Rightarrow> Inl (InvalidFormat route)
      | result \<Rightarrow> result)"
  unfolding parseRemainder_TrimSpace by (rule parseRemainder_route)

lemma TrimSpace_blank:
  assumes "TrimSpace ws = []"
  shows "TrimSpace (p @ ws) = TrimSpace p"
proof -
  obtain ps qs where ps: "set ps \<subseteq> set spaceRunes" and qs: "set qs \<subseteq> set spaceRunes"
    and w: "ws = concat ps @ TrimSpace ws @ concat qs"
    using TrimSpace_split by blast
  with assms have "ws = concat (ps @ qs)" by simp
  moreover have "TrimSpace (concat [] @ p @ concat (ps @ qs)) = TrimSpace p"
    using ps qs by (intro TrimSpace_around) simp_all
  ultimately show ?thesis by simp
qed

lemma blank_bytes:
  assumes "TrimSpace ws = []"
  shows "CHR ''@'' \<notin> set ws"
proof -
  obtain ps qs where ps: "set ps \<subseteq> set spaceRunes" and qs: "set qs \<subseteq> set spaceRunes"
    and w: "ws = concat ps @ TrimSpace ws @ concat qs"
    using TrimSpace_split by blast
  with assms have "set ws = set (concat ps) \<union> set (concat qs)"
    by (metis append_Nil set_append)
  with spaceRunes_bytes(3) [OF ps] spaceRunes_bytes(3) [OF qs] show ?thesis by simp
qed

text \<open>
  Claim C9, as stated, fails in two ways. A route whose last \<open>@\<close> is followed by nothing
  need not be accepted: the route \<open>@\<close> has an empty proxy part and is refused for its
  empty hostname. And when the text before the last \<open>@\<close> holds another \<open>@\<close>, the route
  is not parsed as if its last \<open>@\<close> had not been written: \<open>a@b:1@\<close> is refused as the
  old format, while \<open>a@b:1\<close> is the passthrough route for \<open>a\<close> through the proxy
  \<open>b:1\<close>.
\<close>

theorem parseRoute_trailing_at_counterexample:
  "LastIndex ''@'' CHR ''@'' = Some 0
   \<and> TrimSpace (drop (0 + 1) ''@'') = []
   \<and> parseRoute ''@'' = Inl EmptyHostname
   \<and> LastIndex ''a@b:1@'' CHR ''@'' = Some 5
   \<and> TrimSpace (drop (5 + 1) ''a@b:1@'') = []
   \<and> parseRoute ''a@b:1@'' = Inl (InvalidFormat ''a@b:1@'')
   \<and> parseRoute ''a@b:1'' =
       Inr \<lparr>Host = ''a'', Target = [], Passthrough = True, ProxyAddr = ''b:1''\<rparr>"
  by code_simp

text \<open>
  Claim C9, amended. When the text after the last \<open>@\<close> of a route string trims to
  nothing, the result of \<open>parseRoute\<close> is that of its remaining steps on the trimmed
  text before that \<open>@\<close>, with an empty proxy address. When the text before the \<open>@\<close>
  holds no further \<open>@\<close>, this is the result of parsing the route with the \<open>@\<close> left
  out, and also that of parsing the text before the \<open>@\<close>, trimmed or not, as a route
  of its own; only the old-format error names the route as it was written. When that
  text is a hostname (it has no colon and no equals sign, and is not blank), the
  route is accepted as the passthrough route for it. In no case is the error the
  invalid-proxy error, and every descriptor returned has an empty proxy address.
\<close>

theorem parseRoute_trailing_at:
  assumes "LastIndex route CHR ''@'' = Some idx"
    and "TrimSpace (drop (idx + 1) route) = []"
  shows "parseRoute route = parseRemainder route [] (TrimSpace (take idx route))
       \<and> (CHR ''@'' \<notin> set (take idx route) \<longrightarrow>
            parseRoute route =
              (case parseRoute (take idx route @ drop (idx + 1) route) of
                 Inl (InvalidFormat given) \<Rightarrow> Inl (InvalidFormat route)
               | result \<Rightarrow> result)
            \<and> parseRoute route =
              (case parseRoute (take idx route) of
                 Inl (InvalidFormat given) \<Rightarrow> Inl (InvalidFormat route)
               | result \<Rightarrow> result)
            \<and> parseRoute route =
              (case parseRoute (TrimSpace (take idx route)) of
                 Inl (InvalidFormat given) \<Rightarrow> Inl (InvalidFormat route)
               | result \<Rightarrow> result))
       \<and> (TrimSpace (take idx route) \<noteq> []
            \<and> \<not> Contains (take idx route) CHR '':''
            \<and> \<not> Contains (take idx route) CHR ''='' \<longrightarrow>
            parseRoute route =
              Inr \<lparr>Host = TrimSpace (take idx route), Target = [], Passthrough = True,
                   ProxyAddr = []\<rparr>)
       \<and> (\<forall>addr err. parseRoute route \<noteq> Inl (InvalidProxy addr err))
       \<and> (\<forall>cfg. parseRoute route = Inr cfg \<longrightarrow> ProxyAddr cfg = [])"
proof -
  let ?p = "take idx route"
  let ?ws = "drop (idx + 1) route"
  let ?t = "TrimSpace ?p"
  have a: "parseRoute route = parseRemainder route [] ?t"
    using assms by (simp add: parseRoute_parseRemainder)
  have whole: "parseRoute x = parseRemainder x [] x" if "CHR ''@'' \<notin> set x" for x
  proof -
    from that have "LastIndex x CHR ''@'' = None" by (simp add: LastIndex_None)
    then show ?thesis by (simp add: parseRoute_parseRemainder)
  qed
  have b: "parseRoute route =
              (case parseRoute (?p @ ?ws) of
                 Inl (InvalidFormat given) \<Rightarrow> Inl (InvalidFormat route)
               | result \<Rightarrow> result)
            \<and> parseRoute route =
              (case parseRoute ?p of
                 Inl (InvalidFormat given) \<Rightarrow> Inl (InvalidFormat route)
               | result \<Rightarrow> result)
            \<and> parseRoute route =
              (case parseRoute ?t of
                 Inl (InvalidFormat given) \<Rightarrow> Inl (InvalidFormat route)
               | result \<Rightarrow> result)"
    if no: "CHR ''@'' \<notin> set ?p"
  proof -
    from no blank_bytes [OF assms(2)] have "CHR ''@'' \<notin> set (?p @ ?ws)" by simp
    then have w: "parseRoute (?p @ ?ws) = parseRemainder (?p @ ?ws) [] (?p @ ?ws)"
      by (rule whole)
    have "parseRemainder route [] (TrimSpace (?p @ ?ws)) =
        (case parseRemainder (?p @ ?ws) [] (?p @ ?ws) of
           Inl (InvalidFormat given) \<Rightarrow> Inl (InvalidFormat route)
         | result \<Rightarrow> result)"
      by (rule parseRemainder_trim)
    then have b1: "parseRoute route =
              (case parseRoute (?p @ ?ws) of
                 Inl (InvalidFormat given) \<Rightarrow> Inl (InvalidFormat route)
               | result \<Rightarrow> result)"
      unfolding a w TrimSpace_blank [OF assms(2)] .
    have "parseRemainder route [] ?t =
        (case parseRemainder ?p [] ?p of
           Inl (InvalidFormat given) \<Rightarrow> Inl (InvalidFormat route)
         | result \<Rightarrow> result)"
      by (rule parseRemainder_trim)
    then have b2: "parseRoute route =
              (case parseRoute ?p of
                 Inl (InvalidFormat given) \<Rightarrow> Inl (InvalidFormat route)
               | result \<Rightarrow> result)"
      unfolding a whole [OF no] .
    from no TrimSpace_set [of ?p] have "CHR ''@'' \<notin> set ?t" by blast
    then have "parseRoute ?t = parseRemainder ?t [] ?t" by (rule whole)
    with a have b3: "parseRoute route =
              (case parseRoute ?t of
                 Inl (InvalidFormat given) \<Rightarrow> Inl (InvalidFormat route)
               | result \<Rightarrow> result)"
      by (simp add: parseRemainder_def Let_def split: option.splits sum.splits)
    from b1 b2 b3 show ?thesis by (intro conjI)
  qed
  have c: "parseRoute route =
              Inr \<lparr>Host = ?t, Target = [], Passthrough = True, ProxyAddr = []\<rparr>"
    if "?t \<noteq> [] \<and> \<not> Contains ?p CHR '':'' \<and> \<not> Contains ?p CHR ''=''"
  proof -
    from that TrimSpace_set [of ?p]
    have "\<not> Contains ?t CHR '':''" "\<not> Contains ?t CHR ''=''"
      by (auto simp: Contains_def IndexByte_None)
    with a that show ?thesis
      by (simp add: parseRemainder_def TrimSpace_idem)
  qed
  have d: "parseRoute route \<noteq> Inl (InvalidProxy addr err)" for addr err
    unfolding a
    by (simp add: parseRemainder_def Let_def split: option.splits sum.splits)
  have e: "ProxyAddr cfg = []" if "parseRoute route = Inr cfg" for cfg
    using that unfolding a
    by (auto simp: parseRemainder_def Let_def split: if_splits option.splits sum.splits)
  from a b c d e show ?thesis by blast
qed

theorem parseRoute_trailing_at_witness:
  "LastIndex ''example.com@ '' CHR ''@'' = Some 11
   \<and> TrimSpace (drop (11 + 1) ''example.com@ '') = []
   \<and> TrimSpace (take 11 ''example.com@ '') = ''example.com''
   \<and> CHR ''@'' \<notin> set (take 11 ''example.com@ '')
   \<and> \<not> Contains (take 11 ''example.com@ '') CHR '':''
   \<and> \<not> Contains (take 11 ''example.com@ '') CHR ''=''
   \<and> parseRoute ''example.com@ '' =
       Inr \<lparr>Host = ''example.com'', Target = [], Passthrough = True, ProxyAddr = []\<rparr>
   \<and> parseRoute ''example.com@ '' = parseRoute ''example.com''
   \<and> parseRoute ''example.com@ '' = parseRoute ''example.com ''"
proof -
  have a: "LastIndex ''example.com@ '' CHR ''@'' = Some 11" by code_simp
  have b: "TrimSpace (drop (11 + 1) ''example.com@ '') = []" by code_simp
  have t: "TrimSpace (take 11 ''example.com@ '') = ''example.com''" by code_simp
  have n: "CHR ''@'' \<notin> set (take 11 ''example.com@ '')" by simp
  have c: "\<not> Contains (take 11 ''example.com@ '') CHR '':''"
    "\<not> Contains (take 11 ''example.com@ '') CHR ''=''"
    by code_simp+
  have p: "parseRoute ''example.com'' =
       Inr \<lparr>Host = ''example.com'', Target = [], Passthrough = True, ProxyAddr = []\<rparr>"
    by code_simp
  have q: "parseRoute ''example.com '' =
       Inr \<lparr>Host = ''example.com'', Target = [], Passthrough = True, ProxyAddr = []\<rparr>"
    by code_simp
  from parseRoute_trailing_at [OF a b]
  have "TrimSpace (take 11 ''example.com@ '') \<noteq> []
        \<and> \<not> Contains (take 11 ''example.com@ '') CHR '':''
        \<and> \<not> Contains (take 11 ''example.com@ '') CHR ''='' \<longrightarrow>
      parseRoute ''example.com@ '' =
        Inr \<lparr>Host = TrimSpace (take 11 ''example.com@ ''), Target = [], Passthrough = True,
             ProxyAddr = []\<rparr>"
    by blast
  with t c
  have r: "parseRoute ''example.com@ '' =
       Inr \<lparr>Host = ''example.com'', Target = [], Passthrough = True, ProxyAddr = []\<rparr>"
    by simp
  from a b t n c r p q show ?thesis by simp
qed

section \<open>The route table\<close>

lemma parseRoutesFrom_keeps:
  "parseRoutesFrom rm routes = Inr t \<Longrightarrow> rm h = Some c \<Longrightarrow> rules t h = Some c"
proof (induction routes arbitrary: rm)
  case Nil
  then show ?case by auto
next
  case (Cons route routes)
  from Cons.prems(1) obtain cfg where fresh: "rm (Host cfg) = None"
    and rest: "parseRoutesFrom (rm(Host cfg \<mapsto> cfg)) routes = Inr t"
    by (auto split: sum.splits if_splits)
  from fresh Cons.prems(2) have "(rm(Host cfg \<mapsto> cfg)) h = Some c"
    by auto
  from Cons.IH [OF rest this] show ?case .
qed

lemma parseRoutesFrom_stores:
  "parseRoutesFrom rm routes = Inr t \<Longrightarrow> r \<in> set routes \<Longrightarrow>
     \<exists>cfg. parseRoute r = Inr cfg \<and> rm (Host cfg) = None \<and> rules t (Host cfg) = Some cfg"
proof (induction routes arbitrary: rm)
  case Nil
  then show ?case by simp
next
  case (Cons route routes)
  from Cons.prems(1) obtain cfg where cfg: "parseRoute route = Inr cfg"
    and fresh: "rm (Host cfg) = None"
    and rest: "parseRoutesFrom (rm(Host cfg \<mapsto> cfg)) routes = Inr t"
    by (auto split: sum.splits if_splits)
  show ?case
  proof (cases "r = route")
    case True
    have "rules t (Host cfg) = Some cfg"
      using parseRoutesFrom_keeps [OF rest, of "Host cfg" cfg] by simp
    with True cfg fresh show ?thesis by blast
  next
    case False
    with Cons.prems(2) have "r \<in> set routes" by simp
    from Cons.IH [OF rest this] obtain c where c: "parseRoute r = Inr c"
      "(rm(Host cfg \<mapsto> cfg)) (Host c) = None" "rules t (Host c) = Some c"
      by blast
    from c(2) have "rm (Host c) = None"
      by (auto split: if_splits)
    with c show ?thesis by blast
  qed
qed

lemma parseRoutesFrom_origin:
  "parseRoutesFrom rm routes = Inr t \<Longrightarrow> rules t h = Some c \<Longrightarrow>
     rm h = Some c \<or> (\<exists>r\<in>set routes. parseRoute r = Inr c \<and> Host c = h)"
proof (induction routes arbitrary: rm)
  case Nil
  then show ?case by auto
next
  case (Cons route routes)
  from Cons.prems(1) obtain cfg where cfg: "parseRoute route = Inr cfg"
    and rest: "parseRoutesFrom (rm(Host cfg \<mapsto> cfg)) routes = Inr t"
    by (auto split: sum.splits if_splits)
  from Cons.IH [OF rest Cons.prems(2)]
  show ?case using cfg by (auto split: if_splits)
qed

lemma parseRoutesFrom_distinct:
  "parseRoutesFrom rm routes = Inr t \<Longrightarrow> i < j \<Longrightarrow> j < length routes \<Longrightarrow>
     parseRoute (routes ! i) = Inr ci \<Longrightarrow> parseRoute (routes ! j) = Inr cj \<Longrightarrow>
     Host ci \<noteq> Host cj"
proof (induction routes arbitrary: rm i j)
  case Nil
  then show ?case by simp
next
  case (Cons route routes)
  from Cons.prems(1) obtain cfg where cfg: "parseRoute route = Inr cfg"
    and rest: "parseRoutesFrom (rm(Host cfg \<mapsto> cfg)) routes = Inr t"
    by (auto split: sum.splits if_splits)
  from Cons.prems(2) obtain j' where j: "j = Suc j'" by (cases j) auto
  with Cons.prems(3) have j': "j' < length routes" by simp
  show ?case
  proof (cases i)
    case 0
    with Cons.prems(4) cfg have ci: "ci = cfg" by simp
    from j' have "routes ! j' \<in> set routes" by simp
    from parseRoutesFrom_stores [OF rest this] Cons.prems(5) j
    have "(rm(Host cfg \<mapsto> cfg)) (Host cj) = None" by auto
    then have "Host cj \<noteq> Host cfg" by (auto split: if_splits)
    with ci show ?thesis by simp
  next
    case (Suc i')
    with Cons.prems j have "i' < j'" "parseRoute (routes ! i') = Inr ci"
      "parseRoute (routes ! j') = Inr cj" by simp_all
    from Cons.IH [OF rest this(1) j' this(2,3)] show ?thesis .
  qed
qed

lemma parseRoutesFrom_error:
  "parseRoutesFrom rm routes = Inl e \<Longrightarrow>
     (\<exists>h. e = DuplicateRoute h)
     \<or> (\<exists>k<length routes. parseRoute (routes ! k) = Inl e
           \<and> (\<exists>t. parseRoutesFrom rm (take k routes) = Inr t))"
proof (induction routes arbitrary: rm)
  case Nil
  then show ?case by simp
next
  case (Cons route routes)
  show ?case
  proof (cases "parseRoute route")
    case (Inl e')
    with Cons.prems have "e = e'" by simp
    with Inl have "parseRoute ((route # routes) ! 0) = Inl e
        \<and> (\<exists>t. parseRoutesFrom rm (take 0 (route # routes)) = Inr t)"
      by simp
    then show ?thesis by blast
  next
    case (Inr cfg)
    show ?thesis
    proof (cases "rm (Host cfg) = None")
      case False
      with Inr Cons.prems show ?thesis by auto
    next
      case True
      with Inr Cons.prems
      have rest: "parseRoutesFrom (rm(Host cfg \<mapsto> cfg)) routes = Inl e" by simp
      from Cons.IH [OF rest] show ?thesis
      proof
        assume "\<exists>h. e = DuplicateRoute h"
        then show ?thesis by blast
      next
        assume "\<exists>k<length routes. parseRoute (routes ! k) = Inl e
           \<and> (\<exists>t. parseRoutesFrom (rm(Host cfg \<mapsto> cfg)) (take k routes) = Inr t)"
        then obtain k t where k: "k < length routes" "parseRoute (routes ! k) = Inl e"
          "parseRoutesFrom (rm(Host cfg \<mapsto> cfg)) (take k routes) = Inr t"
          by blast
        with Inr True
        have "Suc k < length (route # routes)
            \<and> parseRoute ((route # routes) ! Suc k) = Inl e
            \<and> parseRoutesFrom rm (take (Suc k) (route # routes)) = Inr t"
          by simp
        then show ?thesis by blast
      qed
    qed
  qed
qed

text \<open>
  Claim C5, as stated, fails: two valid route strings with one hostname do not always
  give the duplicate-route error. An invalid string placed before them is reported
  first.
\<close>

theorem parseRoutes_duplicate_counterexample:
  "parseRoute ([''example.com:443'', ''a'', ''a''] ! 1) =
     Inr \<lparr>Host = ''a'', Target = [], Passthrough = True, ProxyAddr = []\<rparr>
   \<and> parseRoute ([''example.com:443'', ''a'', ''a''] ! 2) =
     Inr \<lparr>Host = ''a'', Target = [], Passthrough = True, ProxyAddr = []\<rparr>
   \<and> parseRoutes [''example.com:443'', ''a'', ''a''] = Inl (InvalidFormat ''example.com:443'')"
proof -
  have "parseRoute ''a'' =
      Inr \<lparr>Host = ''a'', Target = [], Passthrough = True, ProxyAddr = []\<rparr>"
    by code_simp
  then show ?thesis
    by (simp add: parseRoutes_def parseRoute_example_old_format)
qed

text \<open>
  Claim C5, amended. A list of route strings in which two valid strings, at any two
  positions, have the same hostname never yields a table. The error is the
  duplicate-route error, or else the parse error of an invalid string that stands
  before the later of the two and has only valid strings before it. So when every
  string before the later of the two is valid, the error is the duplicate-route
  error.
\<close>

theorem parseRoutes_duplicate:
  assumes ij: "i < j" "j < length routes"
    and ci: "parseRoute (routes ! i) = Inr ci"
    and cj: "parseRoute (routes ! j) = Inr cj"
    and same: "Host ci = Host cj"
  shows "(\<forall>t. parseRoutes routes \<noteq> Inr t)
       \<and> ((\<exists>h. parseRoutes routes = Inl (DuplicateRoute h))
            \<or> (\<exists>k<j. \<exists>e. parseRoute (routes ! k) = Inl e \<and> parseRoutes routes = Inl e
                  \<and> (\<forall>m<k. \<exists>c. parseRoute (routes ! m) = Inr c)))
       \<and> ((\<forall>k<j. \<exists>c. parseRoute (routes ! k) = Inr c)
            \<longrightarrow> (\<exists>h. parseRoutes routes = Inl (DuplicateRoute h)))"
proof -
  have no_table: "parseRoutes routes \<noteq> Inr t" for t
    using parseRoutesFrom_distinct [of Map.empty routes t i j ci cj] ij ci cj same
    by (auto simp: parseRoutes_def)
  from no_table obtain e where e: "parseRoutesFrom Map.empty routes = Inl e"
    by (cases "parseRoutes routes") (auto simp: parseRoutes_def)
  have which: "(\<exists>h. parseRoutes routes = Inl (DuplicateRoute h))
            \<or> (\<exists>k<j. \<exists>e. parseRoute (routes ! k) = Inl e \<and> parseRoutes routes = Inl e
                  \<and> (\<forall>m<k. \<exists>c. parseRoute (routes ! m) = Inr c))"
    using parseRoutesFrom_error [OF e]
  proof
    assume "\<exists>h. e = DuplicateRoute h"
    with e show ?thesis by (auto simp: parseRoutes_def)
  next
    assume "\<exists>k<length routes. parseRoute (routes ! k) = Inl e
         \<and> (\<exists>t. parseRoutesFrom Map.empty (take k routes) = Inr t)"
    then obtain k t where k: "k < length routes" "parseRoute (routes ! k) = Inl e"
      "parseRoutesFrom Map.empty (take k routes) = Inr t"
      by blast
    have kj: "k < j"
    proof (rule ccontr)
      assume "\<not> k < j"
      moreover have "k \<noteq> j" using k(2) cj by auto
      ultimately have "j < k" by simp
      with ij k(1) have "j < length (take k routes)" "take k routes ! i = routes ! i"
        "take k routes ! j = routes ! j"
        by simp_all
      with parseRoutesFrom_distinct [OF k(3) ij(1) this(1), of ci cj] ci cj same
      show False by simp
    qed
    have before: "\<exists>c. parseRoute (routes ! m) = Inr c" if "m < k" for m
    proof -
      from that k(1) have "take k routes ! m = routes ! m" "m < length (take k routes)"
        by simp_all
      then have "routes ! m \<in> set (take k routes)"
        by (metis nth_mem)
      from parseRoutesFrom_stores [OF k(3) this] show ?thesis by blast
    qed
    from kj k(2) e before show ?thesis
      by (auto simp: parseRoutes_def)
  qed
  have dup: "\<exists>h. parseRoutes routes = Inl (DuplicateRoute h)"
    if valid: "\<forall>k<j. \<exists>c. parseRoute (routes ! k) = Inr c"
    using which valid by auto
  from no_table which dup show ?thesis by blast
qed

theorem parseRoutes_duplicate_witness:
  "(0::nat) < 2 \<and> (2::nat) < length [''a'', ''b=:1'', ''a=:2'']
   \<and> parseRoute ([''a'', ''b=:1'', ''a=:2''] ! 0) =
       Inr \<lparr>Host = ''a'', Target = [], Passthrough = True, ProxyAddr = []\<rparr>
   \<and> parseRoute ([''a'', ''b=:1'', ''a=:2''] ! 1) =
       Inr \<lparr>Host = ''b'', Target = ''localhost:1'', Passthrough = False, ProxyAddr = []\<rparr>
   \<and> parseRoute ([''a'', ''b=:1'', ''a=:2''] ! 2) =
       Inr \<lparr>Host = ''a'', Target = ''localhost:2'', Passthrough = False, ProxyAddr = []\<rparr>
   \<and> parseRoutes [''a'', ''b=:1'', ''a=:2''] = Inl (DuplicateRoute ''a'')"
proof -
  let ?R = "[''a'', ''b=:1'', ''a=:2'']"
  have r0: "parseRoute (?R ! 0) =
      Inr \<lparr>Host = ''a'', Target = [], Passthrough = True, ProxyAddr = []\<rparr>"
    by code_simp
  have r1: "parseRoute (?R ! 1) =
      Inr \<lparr>Host = ''b'', Target = ''localhost:1'', Passthrough = False, ProxyAddr = []\<rparr>"
    by code_simp
  have r2: "parseRoute (?R ! 2) =
      Inr \<lparr>Host = ''a'', Target = ''localhost:2'', Passthrough = False, ProxyAddr = []\<rparr>"
    by code_simp
  have res: "parseRoutes ?R = Inl (DuplicateRoute ''a'')"
    using r0 r1 r2 by (simp add: parseRoutes_def)
  have len: "(0::nat) < 2" "(2::nat) < length ?R" by simp_all
  from parseRoutes_duplicate [OF len r0 r2] r0 r1 r2 res len show ?thesis
    by simp
qed

text \<open>
  Claim C10. Lookup in a table built from route strings is exact: a hostname \<open>h\<close> is
  found, with descriptor \<open>cfg\<close>, exactly when one of the route strings parses to
  \<open>cfg\<close> and the hostname of \<open>cfg\<close> is \<open>h\<close> itself, byte for byte. Nothing is
  folded, no pattern and no parent domain matches.
\<close>

theorem Lookup_exact:
  assumes "parseRoutes routes = Inr rm"
  shows "(Lookup rm h = Some cfg)
       = (\<exists>r\<in>set routes. parseRoute r = Inr cfg \<and> Host cfg = h)"
proof
  assume "Lookup rm h = Some cfg"
  with parseRoutesFrom_origin [of Map.empty routes rm h cfg] assms
  show "\<exists>r\<in>set routes. parseRoute r = Inr cfg \<and> Host cfg = h"
    by (simp add: parseRoutes_def Lookup_def)
next
  assume "\<exists>r\<in>set routes. parseRoute r = Inr cfg \<and> Host cfg = h"
  then obtain r where r: "r \<in> set routes" "parseRoute r = Inr cfg" "Host cfg = h"
    by blast
  from assms have "parseRoutesFrom Map.empty routes = Inr rm"
    by (simp add: parseRoutes_def)
  from parseRoutesFrom_stores [OF this r(1)] r(2,3)
  show "Lookup rm h = Some cfg"
    by (auto simp: Lookup_def)
qed

theorem Lookup_exact_witness:
  "parseRoutes [''example.com''] =
     Inr \<lparr>rules = [''example.com'' \<mapsto>
       \<lparr>Host = ''example.com'', Target = [], Passthrough = True, ProxyAddr = []\<rparr>]\<rparr>
   \<and> Lookup \<lparr>rules = [''example.com'' \<mapsto>
       \<lparr>Host = ''example.com'', Target = [], Passthrough = True, ProxyAddr = []\<rparr>]\<rparr>
       ''example.com''
     = Some \<lparr>Host = ''example.com'', Target = [], Passthrough = True, ProxyAddr = []\<rparr>
   \<and> Lookup \<lparr>rules = [''example.com'' \<mapsto>
       \<lparr>Host = ''example.com'', Target = [], Passthrough = True, ProxyAddr = []\<rparr>]\<rparr>
       ''EXAMPLE.COM''
     \<noteq> Some \<lparr>Host = ''example.com'', Target = [], Passthrough = True, ProxyAddr = []\<rparr>
   \<and> Lookup \<lparr>rules = [''example.com'' \<mapsto>
       \<lparr>Host = ''example.com'', Target = [], Passthrough = True, ProxyAddr = []\<rparr>]\<rparr>
       ''www.example.com''
     \<noteq> Some \<lparr>Host = ''example.com'', Target = [], Passthrough = True, ProxyAddr = []\<rparr>"
proof -
  let ?c = "\<lparr>Host = ''example.com'', Target = [], Passthrough = True, ProxyAddr = []\<rparr>"
  let ?rm = "\<lparr>rules = [''example.com'' \<mapsto> ?c]\<rparr>"
  have p: "parseRoute ''example.com'' = Inr ?c"
    by (rule parseRoute_example_passthrough)
  then have t: "parseRoutes [''example.com''] = Inr ?rm"
    by (simp add: parseRoutes_def)
  from Lookup_exact [OF t, of "''example.com''" ?c]
    Lookup_exact [OF t, of "''EXAMPLE.COM''" ?c]
    Lookup_exact [OF t, of "''www.example.com''" ?c] p t
  show ?thesis by simp
qed

section \<open>The dialer factory: results\<close>

text \<open>
  Claim C7. \<open>createDialer\<close> returns an error exactly when the proxy address is not
  empty and \<open>net.SplitHostPort\<close> refuses it; with the empty address it returns the
  direct dial function, whose call connects to the address it is given; the call of
  \<open>createDialer\<close> itself has no network event, whereas every call of a dial function
  begins with a connection attempt.
\<close>

theorem createDialer_spec:
  "((\<exists>e. fst (createDialer socksAddr timeout) = Inl e)
      \<longleftrightarrow> (socksAddr \<noteq> [] \<and> (\<exists>e. SplitHostPort socksAddr = Inl e)))
   \<and> createDialer [] timeout = (Inr (DirectDial timeout), [])
   \<and> snd (callDial (DirectDial timeout) net nw addr) = [Connect nw addr]
   \<and> snd (createDialer socksAddr timeout) = []
   \<and> (\<forall>d. \<exists>n a evs. snd (callDial d net nw addr) = Connect n a # evs)"
proof -
  have a: "(\<exists>e. fst (createDialer socksAddr timeout) = Inl e)
      \<longleftrightarrow> (socksAddr \<noteq> [] \<and> (\<exists>e. SplitHostPort socksAddr = Inl e))"
    by (auto simp: createDialer_def SOCKS5_def split: sum.splits)
  have b: "createDialer [] timeout = (Inr (DirectDial timeout), [])"
    by (simp add: createDialer_def)
  have c: "snd (createDialer socksAddr timeout) = []"
    by (simp add: createDialer_def split: sum.splits)
  have d: "\<exists>n a evs. snd (callDial d net nw addr) = Connect n a # evs" for d
    by (cases d) auto
  from a b c d show ?thesis by simp
qed

theorem createDialer_spec_witness:
  "''nohostport'' \<noteq> [] \<and> SplitHostPort ''nohostport'' = Inl MissingPort
   \<and> fst (createDialer ''nohostport'' 10) = Inl (InvalidSocksAddress ''nohostport'' MissingPort)
   \<and> snd (createDialer ''nohostport'' 10) = []
   \<and> createDialer ''127.0.0.1:1080'' 10 = (Inr (Socks5Dial ''127.0.0.1:1080'' 10), [])"
proof -
  have s: "SplitHostPort ''nohostport'' = Inl MissingPort" by code_simp
  have f: "fst (createDialer ''nohostport'' 10)
      = Inl (InvalidSocksAddress ''nohostport'' MissingPort)"
    by code_simp
  have g: "createDialer ''127.0.0.1:1080'' 10 = (Inr (Socks5Dial ''127.0.0.1:1080'' 10), [])"
    by code_simp
  from createDialer_spec [of "''nohostport''" 10 openNetwork "''tcp''" "''a.test:443''"] s f g
  show ?thesis by simp
qed

section \<open>The connection handler: results\<close>

lemma written_append: "written sd (xs @ ys) = written sd xs @ written sd ys"
  by (induction sd xs rule: written.induct) auto

lemma written_reads: "\<forall>e\<in>set evs. isRead e \<Longrightarrow> written sd evs = []"
  by (induction sd evs rule: written.induct) auto

lemma connRead_facts:
  assumes "connRead sd k c = (bs, err, c', evs)"
  shows "readDeadline c' = readDeadline c"
    and "evs = [SockRead sd (readDeadline c) bs]"
    and "stream (incoming c) = bs @ stream (incoming c')"
    and "length bs \<le> k"
    and "err = Some EOF \<Longrightarrow> incoming c' = []"
    and "err = Some IOError \<Longrightarrow> stream (incoming c') = [] \<and> ReadError \<in> set (incoming c')"
    and "err \<noteq> Some ErrShortWrite"
    and "(ReadError \<in> set (incoming c')) = (ReadError \<in> set (incoming c))"
    and "err \<noteq> None \<Longrightarrow> bs = []"
  using assms
  by (auto simp: connRead_def split: list.splits delivery.splits if_splits dest: in_set_dropD)

lemma readLimited_facts:
  "readLimited sd n c = (bs, err, c', evs) \<Longrightarrow>
     readDeadline c' = readDeadline c
     \<and> (\<forall>e\<in>set evs. \<exists>b. e = SockRead sd (readDeadline c) b)
     \<and> stream (incoming c) = bs @ stream (incoming c')
     \<and> length bs \<le> n"
proof (induction sd n c arbitrary: bs err c' evs rule: readLimited.induct)
  case (1 sd n c)
  show ?case
  proof (cases "n = 0")
    case True
    with "1.prems" show ?thesis by (simp add: readLimited.simps)
  next
    case False
    obtain bs1 err1 c1 evs1 where r: "connRead sd n c = (bs1, err1, c1, evs1)"
      by (cases "connRead sd n c") auto
    note f = connRead_facts [OF r]
    show ?thesis
    proof (cases err1)
      case (Some e)
      with False r "1.prems" have "bs = bs1" "c' = c1" "evs = evs1"
        by (auto simp: readLimited.simps [of sd n c] split: io_error.splits)
      with f show ?thesis by simp
    next
      case None
      obtain bs2 err2 c2 evs2 where
        r2: "readLimited sd (n - length bs1) c1 = (bs2, err2, c2, evs2)"
        by (cases "readLimited sd (n - length bs1) c1") auto
      with None False r "1.prems" have eq: "bs = bs1 @ bs2" "c' = c2" "evs = evs1 @ evs2"
        by (auto simp: readLimited.simps [of sd n c])
      from "1.IH" [OF False r [symmetric] refl None refl r2] f eq
      show ?thesis by auto
    qed
  qed
qed

lemma CopyN_facts:
  assumes "CopyN sd c n = (bs, err, c', evs)"
  shows "readDeadline c' = readDeadline c"
    and "\<forall>e\<in>set evs. \<exists>b. e = SockRead sd (readDeadline c) b"
    and "stream (incoming c) = bs @ stream (incoming c')"
    and "err = None \<Longrightarrow> length bs = n"
proof -
  obtain bs1 err1 c1 evs1 where r: "readLimited sd n c = (bs1, err1, c1, evs1)"
    by (cases "readLimited sd n c") auto
  with assms have eq: "bs = bs1" "c' = c1" "evs = evs1"
    by (auto simp: CopyN_def split: if_splits)
  from readLimited_facts [OF r] eq
  show "readDeadline c' = readDeadline c"
    and "\<forall>e\<in>set evs. \<exists>b. e = SockRead sd (readDeadline c) b"
    and "stream (incoming c) = bs @ stream (incoming c')"
    by simp_all
  show "length bs = n" if "err = None"
    using that assms r by (auto simp: CopyN_def split: if_splits)
qed

lemma Read_facts:
  "Read k r = (bs, err, r', evs) \<Longrightarrow>
     content r = bs @ content r'
     \<and> failing r' = failing r
     \<and> (err = Some EOF \<longrightarrow> content r' = [] \<and> \<not> failing r)
     \<and> (err = Some IOError \<longrightarrow> content r' = [] \<and> failing r')
     \<and> err \<noteq> Some ErrShortWrite
     \<and> (\<forall>e\<in>set evs. isRead e)
     \<and> (deadlineFree r \<longrightarrow> deadlineFree r' \<and> (\<forall>e\<in>set evs. unhurried e))"
proof (induction k r arbitrary: bs err r' evs rule: Read.induct)
  case (1 k sd c)
  obtain bs1 err1 c1 evs1 where r: "connRead sd k c = (bs1, err1, c1, evs1)"
    by (cases "connRead sd k c") auto
  with "1.prems" have eq: "bs = bs1" "err = err1" "r' = ConnReader sd c1" "evs = evs1"
    by auto
  from connRead_facts [OF r] eq show ?case
    by auto
next
  case (2 k buf)
  then show ?case by (auto split: if_splits)
next
  case (3 k)
  then show ?case by auto
next
  case (4 k r rs)
  obtain bs1 err1 r1 evs1 where r: "Read k r = (bs1, err1, r1, evs1)"
    by (cases "Read k r") auto
  note ih1 = "4.IH"(1) [OF r]
  show ?case
  proof (cases "bs1 \<noteq> [] \<or> err1 \<noteq> Some EOF")
    case True
    show ?thesis
    proof (cases "err1 = Some EOF")
      case eof: True
      with True r "4.prems"
      have eq: "bs = bs1" "r' = MultiReader rs" "evs = evs1"
        "err = (if rs \<noteq> [] then None else Some EOF)"
        by (auto simp: Let_def split: if_splits)
      from ih1 eof have c: "content r = bs1" "\<not> failing r" "\<forall>e\<in>set evs1. isRead e"
        "deadlineFree r \<longrightarrow> (\<forall>e\<in>set evs1. unhurried e)"
        by auto
      have "rs = [] \<Longrightarrow> content (MultiReader rs) = [] \<and> \<not> failing (MultiReader rs)"
        by simp
      with c eq show ?thesis
        by auto
    next
      case False
      with True r "4.prems"
      have eq: "bs = bs1" "r' = MultiReader (r1 # rs)" "evs = evs1" "err = err1"
        by (auto simp: Let_def split: if_splits)
      from ih1 False eq show ?thesis
        by auto
    qed
  next
    case False
    then have f: "bs1 = []" "err1 = Some EOF" by auto
    obtain bs2 err2 m evs2 where m: "Read k (MultiReader rs) = (bs2, err2, m, evs2)"
      by (cases "Read k (MultiReader rs)") auto
    from f r m "4.prems"
    have eq: "bs = bs2" "err = err2" "r' = m" "evs = evs1 @ evs2"
      by (auto simp: Let_def)
    have ih2: "content (MultiReader rs) = bs2 @ content m
     \<and> failing m = failing (MultiReader rs)
     \<and> (err2 = Some EOF \<longrightarrow> content m = [] \<and> \<not> failing (MultiReader rs))
     \<and> (err2 = Some IOError \<longrightarrow> content m = [] \<and> failing m)
     \<and> err2 \<noteq> Some ErrShortWrite
     \<and> (\<forall>e\<in>set evs2. isRead e)
     \<and> (deadlineFree (MultiReader rs) \<longrightarrow> deadlineFree m \<and> (\<forall>e\<in>set evs2. unhurried e))"
      using "4.IH"(2) [OF r [symmetric] refl refl refl _ m] f by (auto simp: Let_def)
    from ih1 f have c: "content r = []" "\<not> failing r" "\<forall>e\<in>set evs1. isRead e"
      "deadlineFree r \<longrightarrow> (\<forall>e\<in>set evs1. unhurried e)"
      by auto
    from c ih2 eq show ?thesis
      by auto
  qed
qed

lemma connWrite_facts:
  assumes "connWrite sd w bs = (nw, ew, w', evs)"
  shows "evs = [SockWrite sd (take nw bs)]"
    and "nw \<le> length bs"
    and "ew = None \<Longrightarrow> nw = length bs"
    and "room w = None \<Longrightarrow> ew = None \<and> room w' = None"
  using assms
  by (auto simp: connWrite_def split: option.splits if_splits)

lemma ioCopy_facts:
  "ioCopy sd w src = (err, w', src', evs) \<Longrightarrow>
     (\<exists>n. written sd evs = take n (content src))
     \<and> (room w = None \<longrightarrow> written sd evs = content src)
     \<and> (deadlineFree src \<longrightarrow> (\<forall>e\<in>set evs. unhurried e))"
proof (induction "pending src" arbitrary: w src err w' src' evs rule: less_induct)
  case less
  obtain bs er src1 evs1 where r: "Read 32768 src = (bs, er, src1, evs1)"
    by (cases "Read 32768 src") auto
  note rf = Read_facts [OF r]
  from rf have wr: "written sd evs1 = []"
    by (simp add: written_reads)
  obtain nw ew w1 evs2 where
    wdef: "(if bs \<noteq> [] then connWrite sd w bs else (0, None, w, [])) = (nw, ew, w1, evs2)"
    by (cases "if bs \<noteq> [] then connWrite sd w bs else (0, None, w, [])") auto
  have wfc: "written sd evs2 = take nw bs \<and> nw \<le> length bs
      \<and> (ew = None \<longrightarrow> nw = length bs)
      \<and> (room w = None \<longrightarrow> ew = None \<and> room w1 = None)
      \<and> (\<forall>e\<in>set evs2. unhurried e)"
  proof (cases "bs = []")
    case True
    with wdef show ?thesis by auto
  next
    case False
    with wdef have c: "connWrite sd w bs = (nw, ew, w1, evs2)" by simp
    from connWrite_facts [OF c] show ?thesis by auto
  qed
  then have wf: "written sd evs2 = take nw bs" "nw \<le> length bs"
    "ew = None \<longrightarrow> nw = length bs"
    "room w = None \<longrightarrow> ew = None \<and> room w1 = None" "\<forall>e\<in>set evs2. unhurried e"
    by blast+
  show ?case
  proof (cases "bs \<noteq> [] \<and> ew \<noteq> None")
    case True
    with r wdef less.prems have eq: "evs = evs1 @ evs2"
      by (auto simp: ioCopy.simps [of sd w src])
    have p: "written sd evs = take nw (content src)"
      using eq wr wf rf by (simp add: written_append)
    have q: "room w \<noteq> None"
      using True wf by blast
    have u: "\<forall>e\<in>set evs. unhurried e" if "deadlineFree src"
      using that eq rf wf by auto
    from p q u show ?thesis by blast
  next
    case noerr: False
    then have nw: "nw = length bs" using wf wdef by (auto split: if_splits)
    show ?thesis
    proof (cases "er \<noteq> None")
      case True
      with noerr nw r wdef less.prems have eq: "evs = evs1 @ evs2"
        by (auto simp: ioCopy.simps [of sd w src] split: if_splits)
      from True obtain e where e: "er = Some e" by auto
      with rf have "content src1 = []"
        by (cases e) auto
      with rf have "content src = bs" by simp
      with eq wr wf nw rf have "written sd evs = content src"
        by (simp add: written_append)
      then have "written sd evs = take (length (content src)) (content src)" by simp
      moreover have "\<forall>e\<in>set evs. unhurried e" if "deadlineFree src"
        using that eq rf wf by auto
      ultimately show ?thesis
        using \<open>written sd evs = content src\<close> by blast
    next
      case False
      obtain err3 w3 src3 evs3 where
        rec: "ioCopy sd w1 src1 = (err3, w3, src3, evs3)"
        by (cases "ioCopy sd w1 src1") auto
      with False noerr nw r wdef less.prems have eq: "evs = evs1 @ evs2 @ evs3"
        by (auto simp: ioCopy.simps [of sd w src] split: if_splits)
      from False r have "pending src1 < pending src"
        by (auto dest: Read_pending)
      from less.hyps [OF this rec]
      have ih: "(\<exists>n. written sd evs3 = take n (content src1))
        \<and> (room w1 = None \<longrightarrow> written sd evs3 = content src1)
        \<and> (deadlineFree src1 \<longrightarrow> (\<forall>e\<in>set evs3. unhurried e))" .
      from ih obtain n where n: "written sd evs3 = take n (content src1)" by blast
      have "written sd evs = bs @ take n (content src1)"
        using eq wr wf nw n by (simp add: written_append)
      also have "\<dots> = take (length bs + n) (content src)"
        using rf by simp
      finally have p: "\<exists>k. written sd evs = take k (content src)" by blast
      have q: "written sd evs = content src" if "room w = None"
        using that ih wf eq wr nw rf by (simp add: written_append)
      have u: "\<forall>e\<in>set evs. unhurried e" if "deadlineFree src"
        using that ih rf wf eq by auto
      from p q u show ?thesis by blast
    qed
  qed
qed

lemma handleConn_first:
  "\<exists>rest. fst (handleConn parse net conn routes) = SetReadDeadline (Some 10) # rest"
  by (simp add: handleConn_def Let_def
      split: prod.splits sum.splits option.splits bool.splits)

lemma handleConn_Relaying:
  assumes "handleConn parse net conn routes = (evs, Relaying buf backend c')"
  shows "\<exists>hdr c1 ev1 payload c2 ev2 line proxy ev4 ev6.
      CopyN Client (conn\<lparr>readDeadline := Some 10\<rparr>) 5 = (hdr, None, c1, ev1)
    \<and> CopyN Client c1 (unat (Uint16 (take 2 (drop 3 hdr)))) = (payload, None, c2, ev2)
    \<and> buf = hdr @ payload
    \<and> c' = c2\<lparr>readDeadline := None\<rparr>
    \<and> ev4 = snd (createDialer proxy 10)
    \<and> evs = SetReadDeadline (Some 10) # ev1 @ ev2 @ [LogLine line, CallCreateDialer proxy]
            @ ev4 @ SetReadDeadline None # ev6
    \<and> (\<forall>e\<in>set ev6. \<exists>n a. e = Connect n a \<or> e = SocksConnect n a)"
  using assms
  apply (simp add: handleConn_def Let_def
      split: prod.splits sum.splits option.splits bool.splits if_splits)
  apply (auto elim!: callDial.elims split: if_splits)
  done

lemma copyToBackend_facts:
  "copyToBackend buf c w = (err, w', src', evs) \<Longrightarrow>
     (\<exists>n. written Backend evs = take n (buf @ stream (incoming c)))
     \<and> (room w = None \<longrightarrow> written Backend evs = buf @ stream (incoming c))
     \<and> (readDeadline c = None \<longrightarrow> (\<forall>e\<in>set evs. unhurried e))"
proof -
  let ?src = "MultiReader [BufferReader buf, ConnReader Client c]"
  assume "copyToBackend buf c w = (err, w', src', evs)"
  then have k: "ioCopy Backend w ?src = (err, w', src', evs)"
    by (simp add: copyToBackend_def)
  have c: "content ?src = buf @ stream (incoming c)"
    by simp
  have d: "deadlineFree ?src = (readDeadline c = None)"
    by simp
  from ioCopy_facts [OF k] show ?thesis
    unfolding c d .
qed

lemma sample_run:
  "handleConn ParseClientHello openNetwork sampleConn sampleRoutes =
     ([SetReadDeadline (Some 10),
       SockRead Client (Some 10) (take 3 sampleHello),
       SockRead Client (Some 10) (take 2 (drop 3 sampleHello)),
       SockRead Client (Some 10) (drop 5 sampleHello),
       LogLine (LogRoute ''a.test'' ''localhost:9001'' ''routed''),
       CallCreateDialer [],
       SetReadDeadline None,
       Connect ''tcp'' ''localhost:9001''],
      Relaying sampleHello ''localhost:9001''
        \<lparr>incoming = [Data [9, 9], Data [8]], readDeadline = None\<rparr>)"
  by code_simp

text \<open>
  The events of \<open>handleConn\<close>, whatever its outcome: the setting of the deadline, the
  reads of the buffer, and a tail without reads, in which the deadline is cleared
  exactly when a dialer has been created, right before the connection attempt.
\<close>

lemma callDial_events:
  "\<exists>n a rest. snd (callDial d net nw addr) = Connect n a # rest
      \<and> (\<forall>e\<in>set rest. \<not> isRead e \<and> e \<noteq> SetReadDeadline None \<and> (\<forall>p. e \<noteq> CallCreateDialer p))"
  by (cases d) auto

lemma createDialer_events: "snd (createDialer p t) = []"
  by (simp add: createDialer_def SOCKS5_def split: sum.splits)

lemma handleConn_shape:
  "\<exists>reads tail.
      fst (handleConn parse net conn routes) = SetReadDeadline (Some 10) # reads @ tail
    \<and> (\<forall>e\<in>set reads. \<exists>b. e = SockRead Client (Some 10) b)
    \<and> (\<forall>e\<in>set tail. \<not> isRead e)
    \<and> (\<forall>p. CallCreateDialer p \<in> set tail \<longrightarrow>
          (case fst (createDialer p 10) of
             Inl err \<Rightarrow> SetReadDeadline None \<notin> set tail
           | Inr dialer \<Rightarrow>
               (\<exists>pre n a post.
                  tail = pre @ [CallCreateDialer p, SetReadDeadline None, Connect n a] @ post)))
    \<and> ((\<forall>p. CallCreateDialer p \<notin> set tail) \<longrightarrow> SetReadDeadline None \<notin> set tail)
    \<and> ((\<forall>buf backend c'. snd (handleConn parse net conn routes) \<noteq> Relaying buf backend c')
          \<longrightarrow> tail \<noteq> [] \<and> last tail = Close Client)"
proof -
  let ?P = "\<lambda>reads tail.
      (\<forall>e\<in>set reads. \<exists>b. e = SockRead Client (Some 10) b)
    \<and> (\<forall>e\<in>set tail. \<not> isRead e)
    \<and> (\<forall>p. CallCreateDialer p \<in> set tail \<longrightarrow>
          (case fst (createDialer p 10) of
             Inl err \<Rightarrow> SetReadDeadline None \<notin> set tail
           | Inr dialer \<Rightarrow>
               (\<exists>pre n a post.
                  tail = pre @ [CallCreateDialer p, SetReadDeadline None, Connect n a] @ post)))
    \<and> ((\<forall>p. CallCreateDialer p \<notin> set tail) \<longrightarrow> SetReadDeadline None \<notin> set tail)
    \<and> ((\<forall>buf backend c'. snd (handleConn parse net conn routes) \<noteq> Relaying buf backend c')
          \<longrightarrow> tail \<noteq> [] \<and> last tail = Close Client)"
  obtain hdr e1 c1 ev1 where
    r1: "CopyN Client (conn\<lparr>readDeadline := Some 10\<rparr>) 5 = (hdr, e1, c1, ev1)"
    by (cases "CopyN Client (conn\<lparr>readDeadline := Some 10\<rparr>) 5") auto
  have d1: "readDeadline c1 = Some 10"
    using CopyN_facts(1) [OF r1] by simp
  have rd1: "\<forall>e\<in>set ev1. \<exists>b. e = SockRead Client (Some 10) b"
    using CopyN_facts(2) [OF r1] by simp
  obtain payload e2 c2 ev2 where
    r2: "CopyN Client c1 (unat (Uint16 (take 2 (drop 3 hdr)))) = (payload, e2, c2, ev2)"
    by (cases "CopyN Client c1 (unat (Uint16 (take 2 (drop 3 hdr))))") auto
  have rd2: "\<forall>e\<in>set ev2. \<exists>b. e = SockRead Client (Some 10) b"
    using CopyN_facts(2) [OF r2] d1 by simp
  have rd12: "\<forall>e\<in>set (ev1 @ ev2). \<exists>b. e = SockRead Client (Some 10) b"
    using rd1 rd2 by auto
  have goal: "\<exists>reads tail.
      fst (handleConn parse net conn routes) = SetReadDeadline (Some 10) # reads @ tail
    \<and> ?P reads tail"
    if "fst (handleConn parse net conn routes) = SetReadDeadline (Some 10) # reads @ tail"
      and "?P reads tail" for reads tail
    using that by blast
  show ?thesis
  proof (cases "e1 = None")
    case False
    then have h: "handleConn parse net conn routes =
        (SetReadDeadline (Some 10) # ev1 @ [LogLine LogHeaderFailed, Close Client], Closed)"
      using r1 by (simp add: handleConn_def)
    show ?thesis
      by (rule goal [of ev1 "[LogLine LogHeaderFailed, Close Client]"])
         (use h rd1 in simp_all)
  next
    case e1: True
    show ?thesis
    proof (cases "e2 = None")
      case False
      then have h: "handleConn parse net conn routes =
          (SetReadDeadline (Some 10) # (ev1 @ ev2) @ [LogLine LogRecordFailed, Close Client],
           Closed)"
        using r1 r2 e1 by (simp add: handleConn_def)
      show ?thesis
        by (rule goal [of "ev1 @ ev2" "[LogLine LogRecordFailed, Close Client]"])
           (use h rd12 in simp_all)
    next
      case e2: True
      show ?thesis
      proof (cases "parse (hdr @ payload)")
        case (Inl panic)
        then have h: "handleConn parse net conn routes =
            (SetReadDeadline (Some 10) # (ev1 @ ev2) @ [Close Client], Panicked)"
          using r1 r2 e1 e2 by (simp add: handleConn_def)
        show ?thesis
          by (rule goal [of "ev1 @ ev2" "[Close Client]"]) (use h rd12 in simp_all)
      next
        case (Inr res)
        obtain ch ok where res: "res = (ch, ok)" by (cases res) auto
        show ?thesis
        proof (cases "\<not> ok \<or> SNI ch = []")
          case True
          then have h: "handleConn parse net conn routes =
              (SetReadDeadline (Some 10) # (ev1 @ ev2) @ [LogLine LogNoSNI, Close Client], Closed)"
            using r1 r2 e1 e2 Inr res by (auto simp: handleConn_def)
          show ?thesis
            by (rule goal [of "ev1 @ ev2" "[LogLine LogNoSNI, Close Client]"])
               (use h rd12 in simp_all)
        next
          case named: False
          show ?thesis
          proof (cases "Lookup routes (SNI ch)")
            case None
            then have h: "handleConn parse net conn routes =
                (SetReadDeadline (Some 10) # (ev1 @ ev2)
                   @ [LogLine (LogRejected (SNI ch)), Close Client], Closed)"
              using r1 r2 e1 e2 Inr res named by (auto simp: handleConn_def)
            show ?thesis
              by (rule goal [of "ev1 @ ev2" "[LogLine (LogRejected (SNI ch)), Close Client]"])
                 (use h rd12 in simp_all)
          next
            case (Some cfg)
            let ?backend = "if Passthrough cfg then SNI ch @ '':443'' else Target cfg"
            let ?type = "if Passthrough cfg then ''passthrough'' else ''routed''"
            let ?line = "LogLine (LogRoute (SNI ch) ?backend ?type)"
            obtain dres ev4 where cd: "createDialer (ProxyAddr cfg) 10 = (dres, ev4)"
              by (cases "createDialer (ProxyAddr cfg) 10") auto
            have ev4: "ev4 = []"
              using createDialer_events [of "ProxyAddr cfg" 10] cd by simp
            show ?thesis
            proof (cases dres)
              case (Inl err)
              then have h: "handleConn parse net conn routes =
                  (SetReadDeadline (Some 10) # (ev1 @ ev2)
                     @ [?line, CallCreateDialer (ProxyAddr cfg),
                        LogLine (LogDialerFailed (SNI ch)), Close Client], Closed)"
                using r1 r2 e1 e2 Inr res named Some cd ev4
                by (auto simp: handleConn_def Let_def)
              show ?thesis
                by (rule goal [of "ev1 @ ev2" "[?line, CallCreateDialer (ProxyAddr cfg),
                        LogLine (LogDialerFailed (SNI ch)), Close Client]"])
                   (use h rd12 cd Inl in simp_all)
            next
              case (Inr dialer)
              obtain okd ev6 where dl: "callDial dialer net ''tcp'' ?backend = (okd, ev6)"
                by (cases "callDial dialer net ''tcp'' ?backend") auto
              from callDial_events [of dialer net "''tcp''" ?backend] dl
              obtain n a rest where ev6: "ev6 = Connect n a # rest"
                and rest: "\<forall>e\<in>set rest. \<not> isRead e \<and> e \<noteq> SetReadDeadline None
                    \<and> (\<forall>p. e \<noteq> CallCreateDialer p)"
                by auto
              let ?closing = "if okd then [] else [LogLine (LogConnectFailed ?backend), Close Client]"
              have h: "fst (handleConn parse net conn routes) =
                  SetReadDeadline (Some 10) # (ev1 @ ev2)
                     @ ([?line] @ [CallCreateDialer (ProxyAddr cfg), SetReadDeadline None,
                        Connect n a] @ (rest @ ?closing))"
                and o: "okd \<longrightarrow> snd (handleConn parse net conn routes)
                      = Relaying (hdr @ payload) ?backend (c2\<lparr>readDeadline := None\<rparr>)"
                  "\<not> okd \<longrightarrow> snd (handleConn parse net conn routes) = Closed"
                using r1 r2 e1 e2 \<open>parse (hdr @ payload) = Inr res\<close> res named Some cd ev4 Inr dl ev6
                by (auto simp: handleConn_def Let_def)
              let ?tail = "[?line] @ [CallCreateDialer (ProxyAddr cfg), SetReadDeadline None,
                        Connect n a] @ (rest @ ?closing)"
              have t1: "\<forall>e\<in>set ?tail. \<not> isRead e"
                using rest by auto
              have t2: "\<forall>p. CallCreateDialer p \<in> set ?tail \<longrightarrow>
                  (case fst (createDialer p 10) of
                     Inl err \<Rightarrow> SetReadDeadline None \<notin> set ?tail
                   | Inr dialer \<Rightarrow>
                       (\<exists>pre n a post.
                          ?tail = pre @ [CallCreateDialer p, SetReadDeadline None, Connect n a] @ post))"
              proof (intro allI impI)
                fix p assume "CallCreateDialer p \<in> set ?tail"
                with rest have p: "p = ProxyAddr cfg" by (auto split: if_splits)
                have "\<exists>pre n' a' post.
                    ?tail = pre @ [CallCreateDialer p, SetReadDeadline None, Connect n' a'] @ post"
                  unfolding p by blast
                with p cd Inr show "case fst (createDialer p 10) of
                     Inl err \<Rightarrow> SetReadDeadline None \<notin> set ?tail
                   | Inr dialer \<Rightarrow>
                       (\<exists>pre n a post.
                          ?tail = pre @ [CallCreateDialer p, SetReadDeadline None, Connect n a] @ post)"
                  by simp
              qed
              have t3: "(\<forall>p. CallCreateDialer p \<notin> set ?tail) \<longrightarrow> SetReadDeadline None \<notin> set ?tail"
                by auto
              have t4: "(\<forall>buf backend c'. snd (handleConn parse net conn routes) \<noteq> Relaying buf backend c')
                  \<longrightarrow> ?tail \<noteq> [] \<and> last ?tail = Close Client"
                using o by (cases okd) auto
              from h rd12 t1 t2 t3 t4 show ?thesis
                by (intro exI [of _ "ev1 @ ev2"] exI [of _ ?tail] conjI)
            qed
          qed
        qed
      qed
    qed
  qed
qed

lemma closed_run:
  "handleConn ParseClientHello closedNetwork sampleConn sampleRoutes =
     ([SetReadDeadline (Some 10),
       SockRead Client (Some 10) (take 3 sampleHello),
       SockRead Client (Some 10) (take 2 (drop 3 sampleHello)),
       SockRead Client (Some 10) (drop 5 sampleHello),
       LogLine (LogRoute ''a.test'' ''localhost:9001'' ''routed''),
       CallCreateDialer [],
       SetReadDeadline None,
       Connect ''tcp'' ''localhost:9001'',
       LogLine (LogConnectFailed ''localhost:9001''),
       Close Client],
      Closed)"
  by code_simp

text \<open>
  Claim C2. When the record has been buffered and the extractor reports no name, or an
  empty one, or the name has no route, \<open>handleConn\<close> logs one line and closes the
  client socket: its events are the deadline, the reads, the log line and the close.
  It creates no dialer, connects nowhere and writes to no socket, and it starts no
  copy.
\<close>

theorem handleConn_rejects:
  assumes hdr: "CopyN Client (conn\<lparr>readDeadline := Some 10\<rparr>) 5 = (hdr, None, c1, ev1)"
    and payload:
      "CopyN Client c1 (unat (Uint16 (take 2 (drop 3 hdr)))) = (payload, None, c2, ev2)"
    and parse: "parse (hdr @ payload) = Inr (ch, ok)"
    and reject: "\<not> ok \<or> SNI ch = [] \<or> Lookup routes (SNI ch) = None"
  shows "handleConn parse net conn routes =
           (SetReadDeadline (Some 10) # ev1 @ ev2
              @ [LogLine (if \<not> ok \<or> SNI ch = [] then LogNoSNI else LogRejected (SNI ch)),
                 Close Client],
            Closed)
       \<and> (\<forall>e\<in>set (fst (handleConn parse net conn routes)). \<not> reachesOut e)"
proof -
  have res: "handleConn parse net conn routes =
           (SetReadDeadline (Some 10) # ev1 @ ev2
              @ [LogLine (if \<not> ok \<or> SNI ch = [] then LogNoSNI else LogRejected (SNI ch)),
                 Close Client],
            Closed)"
    using assms by (auto simp: handleConn_def Let_def)
  have "\<forall>e\<in>set (ev1 @ ev2). \<not> reachesOut e"
    using CopyN_facts(2) [OF hdr] CopyN_facts(2) [OF payload] by auto
  with res show ?thesis by auto
qed

theorem handleConn_rejects_witness:
  "CopyN Client (sampleConn\<lparr>readDeadline := Some 10\<rparr>) 5 =
     (take 5 sampleHello, None,
      \<lparr>incoming = [Data (drop 5 sampleHello @ [9, 9]), Data [8]], readDeadline = Some 10\<rparr>,
      [SockRead Client (Some 10) (take 3 sampleHello),
       SockRead Client (Some 10) (take 2 (drop 3 sampleHello))])
   \<and> CopyN Client
       \<lparr>incoming = [Data (drop 5 sampleHello @ [9, 9]), Data [8]], readDeadline = Some 10\<rparr>
       (unat (Uint16 (take 2 (drop 3 (take 5 sampleHello))))) =
     (drop 5 sampleHello, None, \<lparr>incoming = [Data [9, 9], Data [8]], readDeadline = Some 10\<rparr>,
      [SockRead Client (Some 10) (drop 5 sampleHello)])
   \<and> ParseClientHello (take 5 sampleHello @ drop 5 sampleHello) = Inr (\<lparr>SNI = ''a.test''\<rparr>, True)
   \<and> Lookup \<lparr>rules = Map.empty\<rparr> ''a.test'' = None
   \<and> handleConn ParseClientHello openNetwork sampleConn \<lparr>rules = Map.empty\<rparr> =
       ([SetReadDeadline (Some 10),
         SockRead Client (Some 10) (take 3 sampleHello),
         SockRead Client (Some 10) (take 2 (drop 3 sampleHello)),
         SockRead Client (Some 10) (drop 5 sampleHello),
         LogLine (LogRejected ''a.test''), Close Client],
        Closed)"
proof -
  have h: "CopyN Client (sampleConn\<lparr>readDeadline := Some 10\<rparr>) 5 =
     (take 5 sampleHello, None,
      \<lparr>incoming = [Data (drop 5 sampleHello @ [9, 9]), Data [8]], readDeadline = Some 10\<rparr>,
      [SockRead Client (Some 10) (take 3 sampleHello),
       SockRead Client (Some 10) (take 2 (drop 3 sampleHello))])"
    by code_simp
  have p: "CopyN Client
       \<lparr>incoming = [Data (drop 5 sampleHello @ [9, 9]), Data [8]], readDeadline = Some 10\<rparr>
       (unat (Uint16 (take 2 (drop 3 (take 5 sampleHello))))) =
     (drop 5 sampleHello, None, \<lparr>incoming = [Data [9, 9], Data [8]], readDeadline = Some 10\<rparr>,
      [SockRead Client (Some 10) (drop 5 sampleHello)])"
    by code_simp
  have s: "ParseClientHello (take 5 sampleHello @ drop 5 sampleHello)
      = Inr (\<lparr>SNI = ''a.test''\<rparr>, True)"
    by code_simp
  have l: "Lookup \<lparr>rules = Map.empty\<rparr> ''a.test'' = None"
    by (simp add: Lookup_def)
  have r: "\<not> True \<or> SNI \<lparr>SNI = ''a.test''\<rparr> = []
      \<or> Lookup \<lparr>rules = Map.empty\<rparr> (SNI \<lparr>SNI = ''a.test''\<rparr>) = None"
    using l by simp
  from handleConn_rejects [where parse = ParseClientHello and net = openNetwork, OF h p s r] h p s l
  show ?thesis by simp
qed

text \<open>
  Claim C8, as stated, fails: the deadline is not cleared on every connection whose
  buffer is complete. The connection below delivers a complete record for \<open>a.test\<close>,
  the table is empty, and the handler closes it without clearing the deadline.
\<close>

theorem readDeadline_cleared_counterexample:
  "handleConn ParseClientHello openNetwork sampleConn \<lparr>rules = Map.empty\<rparr> =
     ([SetReadDeadline (Some 10),
       SockRead Client (Some 10) (take 3 sampleHello),
       SockRead Client (Some 10) (take 2 (drop 3 sampleHello)),
       SockRead Client (Some 10) (drop 5 sampleHello),
       LogLine (LogRejected ''a.test''), Close Client],
      Closed)
   \<and> take 3 sampleHello @ take 2 (drop 3 sampleHello) @ drop 5 sampleHello = sampleHello
   \<and> length sampleHello = 5 + unat (Uint16 (take 2 (drop 3 sampleHello)))"
  by code_simp

text \<open>
  Claim C8, amended. Every connection gets the 10-second read deadline before its
  first read, and the reads of the handler, which fill the buffer, are all under it:
  the events of \<open>handleConn\<close> are the setting of the deadline, these reads, and a tail
  without reads. When the handler creates a dialer and the creation succeeds, the
  deadline is cleared right after it, immediately before the connection attempt,
  whether or not the attempt succeeds. When the creation fails, or the connection is
  rejected before it, the deadline is never cleared. Unless the relay is reached, the
  last event is the close of the client socket. On a connection that reaches the
  relay, the socket handed to the copies has no deadline, and every read of the copy
  towards the backend is under none.
\<close>

theorem readDeadline_cleared:
  "(\<exists>rest. fst (handleConn parse net conn routes) = SetReadDeadline (Some 10) # rest)
   \<and> (\<exists>reads tail.
        fst (handleConn parse net conn routes) = SetReadDeadline (Some 10) # reads @ tail
      \<and> (\<forall>e\<in>set reads. \<exists>b. e = SockRead Client (Some 10) b)
      \<and> (\<forall>e\<in>set tail. \<not> isRead e)
      \<and> (\<forall>p. CallCreateDialer p \<in> set tail \<longrightarrow>
            (case fst (createDialer p 10) of
               Inl err \<Rightarrow> SetReadDeadline None \<notin> set tail
             | Inr dialer \<Rightarrow>
                 (\<exists>pre n a post.
                    tail = pre @ [CallCreateDialer p, SetReadDeadline None, Connect n a] @ post)))
      \<and> ((\<forall>p. CallCreateDialer p \<notin> set tail) \<longrightarrow> SetReadDeadline None \<notin> set tail)
      \<and> ((\<forall>buf backend c'. snd (handleConn parse net conn routes) \<noteq> Relaying buf backend c')
            \<longrightarrow> tail \<noteq> [] \<and> last tail = Close Client))
   \<and> (\<forall>buf backend c'. snd (handleConn parse net conn routes) = Relaying buf backend c' \<longrightarrow>
        readDeadline c' = None
        \<and> (\<exists>pre post. fst (handleConn parse net conn routes) = pre @ SetReadDeadline None # post
              \<and> (\<forall>e\<in>set pre. \<forall>sd d bs. e = SockRead sd d bs \<longrightarrow> d = Some 10)
              \<and> (\<forall>e\<in>set post. \<not> isRead e))
        \<and> (\<forall>w. \<forall>e\<in>set (snd (snd (snd (copyToBackend buf c' w)))). unhurried e))"
proof -
  have "readDeadline c' = None
        \<and> (\<exists>pre post. fst (handleConn parse net conn routes) = pre @ SetReadDeadline None # post
              \<and> (\<forall>e\<in>set pre. \<forall>sd d bs. e = SockRead sd d bs \<longrightarrow> d = Some 10)
              \<and> (\<forall>e\<in>set post. \<not> isRead e))
        \<and> (\<forall>w. \<forall>e\<in>set (snd (snd (snd (copyToBackend buf c' w)))). unhurried e)"
    if rel: "snd (handleConn parse net conn routes) = Relaying buf backend c'"
    for buf backend c'
  proof -
    obtain evs where h: "handleConn parse net conn routes = (evs, Relaying buf backend c')"
      using rel by (cases "handleConn parse net conn routes") auto
    from handleConn_Relaying [OF h] obtain hdr c1 ev1 payload c2 ev2 line proxy ev4 ev6 where
      r1: "CopyN Client (conn\<lparr>readDeadline := Some 10\<rparr>) 5 = (hdr, None, c1, ev1)"
      and r2: "CopyN Client c1 (unat (Uint16 (take 2 (drop 3 hdr)))) = (payload, None, c2, ev2)"
      and c': "c' = c2\<lparr>readDeadline := None\<rparr>"
      and ev4: "ev4 = snd (createDialer proxy 10)"
      and evs: "evs = SetReadDeadline (Some 10) # ev1 @ ev2
            @ [LogLine line, CallCreateDialer proxy] @ ev4 @ SetReadDeadline None # ev6"
      and ev6: "\<forall>e\<in>set ev6. \<exists>n a. e = Connect n a \<or> e = SocksConnect n a"
      by blast
    have ev6': "\<forall>e\<in>set ev6. \<not> isRead e"
      using ev6 by auto
    have d1: "readDeadline c1 = Some 10"
      using CopyN_facts(1) [OF r1] by simp
    have e1: "\<forall>e\<in>set ev1. \<exists>b. e = SockRead Client (Some 10) b"
      using CopyN_facts(2) [OF r1] by simp
    have e2: "\<forall>e\<in>set ev2. \<exists>b. e = SockRead Client (Some 10) b"
      using CopyN_facts(2) [OF r2] d1 by simp
    have ev4_nil: "ev4 = []"
      using ev4 by (simp add: createDialer_def split: sum.splits)
    let ?pre = "SetReadDeadline (Some 10) # ev1 @ ev2 @ [LogLine line, CallCreateDialer proxy]"
    have split: "fst (handleConn parse net conn routes) = ?pre @ SetReadDeadline None # ev6"
      using h evs ev4_nil by simp
    have pre: "\<forall>e\<in>set ?pre. \<forall>sd d bs. e = SockRead sd d bs \<longrightarrow> d = Some 10"
      using e1 e2 by auto
    have copy: "\<forall>e\<in>set (snd (snd (snd (copyToBackend buf c' w)))). unhurried e" for w
    proof -
      obtain err w' src' cev where k: "copyToBackend buf c' w = (err, w', src', cev)"
        by (cases "copyToBackend buf c' w") auto
      from copyToBackend_facts [OF k] c' k show ?thesis by simp
    qed
    have dl: "readDeadline c' = None"
      using c' by simp
    have ex: "\<exists>pre post. fst (handleConn parse net conn routes) = pre @ SetReadDeadline None # post
              \<and> (\<forall>e\<in>set pre. \<forall>sd d bs. e = SockRead sd d bs \<longrightarrow> d = Some 10)
              \<and> (\<forall>e\<in>set post. \<not> isRead e)"
      using split pre ev6' by (intro exI conjI)
    from dl ex copy show ?thesis by (intro conjI allI)
  qed
  then have rel: "\<forall>buf backend c'.
      snd (handleConn parse net conn routes) = Relaying buf backend c' \<longrightarrow>
        readDeadline c' = None
        \<and> (\<exists>pre post. fst (handleConn parse net conn routes) = pre @ SetReadDeadline None # post
              \<and> (\<forall>e\<in>set pre. \<forall>sd d bs. e = SockRead sd d bs \<longrightarrow> d = Some 10)
              \<and> (\<forall>e\<in>set post. \<not> isRead e))
        \<and> (\<forall>w. \<forall>e\<in>set (snd (snd (snd (copyToBackend buf c' w)))). unhurried e)"
    by (intro allI impI)
  from handleConn_first [of parse net conn routes]
    handleConn_shape [of parse net conn routes] rel
  show ?thesis
    by (intro conjI)
qed

theorem readDeadline_cleared_witness:
  "handleConn ParseClientHello closedNetwork sampleConn sampleRoutes =
     (SetReadDeadline (Some 10) #
        [SockRead Client (Some 10) (take 3 sampleHello),
         SockRead Client (Some 10) (take 2 (drop 3 sampleHello)),
         SockRead Client (Some 10) (drop 5 sampleHello)]
        @ [LogLine (LogRoute ''a.test'' ''localhost:9001'' ''routed'')]
        @ [CallCreateDialer [], SetReadDeadline None, Connect ''tcp'' ''localhost:9001'']
        @ [LogLine (LogConnectFailed ''localhost:9001''), Close Client],
      Closed)
   \<and> fst (createDialer [] 10) = Inr (DirectDial 10)
   \<and> fst (handleConn ParseClientHello openNetwork sampleConn sampleRoutes) =
     SetReadDeadline (Some 10) #
      [SockRead Client (Some 10) (take 3 sampleHello),
       SockRead Client (Some 10) (take 2 (drop 3 sampleHello)),
       SockRead Client (Some 10) (drop 5 sampleHello),
       LogLine (LogRoute ''a.test'' ''localhost:9001'' ''routed''),
       CallCreateDialer [],
       SetReadDeadline None,
       Connect ''tcp'' ''localhost:9001'']
   \<and> snd (handleConn ParseClientHello openNetwork sampleConn sampleRoutes) =
       Relaying sampleHello ''localhost:9001''
         \<lparr>incoming = [Data [9, 9], Data [8]], readDeadline = None\<rparr>
   \<and> readDeadline \<lparr>incoming = [Data [9, 9], Data [8]], readDeadline = None\<rparr> = None"
proof -
  have d: "fst (createDialer [] 10) = Inr (DirectDial 10)"
    by (simp add: createDialer_def)
  from readDeadline_cleared [of ParseClientHello closedNetwork sampleConn sampleRoutes]
  have "\<exists>rest. fst (handleConn ParseClientHello closedNetwork sampleConn sampleRoutes)
      = SetReadDeadline (Some 10) # rest"
    by (rule conjunct1)
  with closed_run
  have c: "handleConn ParseClientHello closedNetwork sampleConn sampleRoutes =
     (SetReadDeadline (Some 10) #
        [SockRead Client (Some 10) (take 3 sampleHello),
         SockRead Client (Some 10) (take 2 (drop 3 sampleHello)),
         SockRead Client (Some 10) (drop 5 sampleHello)]
        @ [LogLine (LogRoute ''a.test'' ''localhost:9001'' ''routed'')]
        @ [CallCreateDialer [], SetReadDeadline None, Connect ''tcp'' ''localhost:9001'']
        @ [LogLine (LogConnectFailed ''localhost:9001''), Close Client],
      Closed)"
    by simp
  from readDeadline_cleared [of ParseClientHello openNetwork sampleConn sampleRoutes]
  have "\<forall>buf backend c'.
      snd (handleConn ParseClientHello openNetwork sampleConn sampleRoutes)
        = Relaying buf backend c' \<longrightarrow> readDeadline c' = None"
    by blast
  with sample_run
  have r: "readDeadline \<lparr>incoming = [Data [9, 9], Data [8]], readDeadline = None\<rparr> = None"
    by simp
  from c d r sample_run show ?thesis by simp
qed

text \<open>
  Claim C1. On a connection that reaches the relay, the buffer is the five header
  bytes and the payload of the declared length, the first bytes the client sent. The
  handler itself writes nothing to the backend; what the copy writes to it is an
  initial part of the buffer followed by the bytes that the client sends afterwards,
  and all of it when the backend accepts every write. So no later byte reaches the
  backend before the whole buffer has.
\<close>

theorem replay_before_relay:
  assumes "handleConn parse net conn routes = (evs, Relaying buf backend c')"
  shows "length buf = 5 + unat (Uint16 (take 2 (drop 3 buf)))
       \<and> stream (incoming conn) = buf @ stream (incoming c')
       \<and> written Backend evs = []
       \<and> (\<forall>w. \<exists>n. written Backend (snd (snd (snd (copyToBackend buf c' w))))
                     = take n (buf @ stream (incoming c')))
       \<and> (\<forall>w. room w = None \<longrightarrow>
              written Backend (snd (snd (snd (copyToBackend buf c' w))))
                = buf @ stream (incoming c'))"
proof -
  from handleConn_Relaying [OF assms] obtain hdr c1 ev1 payload c2 ev2 line proxy ev4 ev6 where
    r1: "CopyN Client (conn\<lparr>readDeadline := Some 10\<rparr>) 5 = (hdr, None, c1, ev1)"
    and r2: "CopyN Client c1 (unat (Uint16 (take 2 (drop 3 hdr)))) = (payload, None, c2, ev2)"
    and buf: "buf = hdr @ payload"
    and c': "c' = c2\<lparr>readDeadline := None\<rparr>"
    and ev4: "ev4 = snd (createDialer proxy 10)"
    and evs: "evs = SetReadDeadline (Some 10) # ev1 @ ev2
          @ [LogLine line, CallCreateDialer proxy] @ ev4 @ SetReadDeadline None # ev6"
    and ev6: "\<forall>e\<in>set ev6. \<exists>n a. e = Connect n a \<or> e = SocksConnect n a"
    by blast
  have l1: "length hdr = 5"
    using CopyN_facts(4) [OF r1] by simp
  have l2: "length payload = unat (Uint16 (take 2 (drop 3 hdr)))"
    using CopyN_facts(4) [OF r2] by simp
  have len: "length buf = 5 + unat (Uint16 (take 2 (drop 3 buf)))"
    using l1 l2 buf by simp
  have str: "stream (incoming conn) = buf @ stream (incoming c')"
    using CopyN_facts(3) [OF r1] CopyN_facts(3) [OF r2] buf c' by simp
  have quiet: "written Backend evs = []"
  proof -
    have "written Backend ev1 = []" "written Backend ev2 = []"
      using CopyN_facts(2) [OF r1] CopyN_facts(2) [OF r2]
      by (auto intro!: written_reads)
    moreover have "ev4 = []"
      using ev4 by (simp add: createDialer_def split: sum.splits)
    moreover have "written Backend ev6 = []"
      using ev6 by (induction ev6) auto
    ultimately show ?thesis
      using evs by (simp add: written_append)
  qed
  have copy: "(\<exists>n. written Backend (snd (snd (snd (copyToBackend buf c' w))))
                     = take n (buf @ stream (incoming c')))
       \<and> (room w = None \<longrightarrow>
              written Backend (snd (snd (snd (copyToBackend buf c' w))))
                = buf @ stream (incoming c'))" for w
  proof -
    obtain err w' src' cev where k: "copyToBackend buf c' w = (err, w', src', cev)"
      by (cases "copyToBackend buf c' w") auto
    from copyToBackend_facts [OF k] k show ?thesis by simp
  qed
  from len str quiet copy show ?thesis by blast
qed

theorem replay_before_relay_witness:
  "handleConn ParseClientHello openNetwork sampleConn sampleRoutes =
     ([SetReadDeadline (Some 10),
       SockRead Client (Some 10) (take 3 sampleHello),
       SockRead Client (Some 10) (take 2 (drop 3 sampleHello)),
       SockRead Client (Some 10) (drop 5 sampleHello),
       LogLine (LogRoute ''a.test'' ''localhost:9001'' ''routed''),
       CallCreateDialer [],
       SetReadDeadline None,
       Connect ''tcp'' ''localhost:9001''],
      Relaying sampleHello ''localhost:9001''
        \<lparr>incoming = [Data [9, 9], Data [8]], readDeadline = None\<rparr>)
   \<and> length sampleHello = 5 + unat (Uint16 (take 2 (drop 3 sampleHello)))
   \<and> written Backend (snd (snd (snd (copyToBackend sampleHello
         \<lparr>incoming = [Data [9, 9], Data [8]], readDeadline = None\<rparr> \<lparr>room = None\<rparr>))))
       = sampleHello @ [9, 9, 8]"
proof -
  let ?c = "\<lparr>incoming = [Data [9, 9], Data [8]], readDeadline = None\<rparr>"
  from replay_before_relay [OF sample_run]
  have len: "length sampleHello = 5 + unat (Uint16 (take 2 (drop 3 sampleHello)))"
    and all: "\<forall>w. room w = None \<longrightarrow>
        written Backend (snd (snd (snd (copyToBackend sampleHello ?c w))))
          = sampleHello @ stream (incoming ?c)"
    by blast+
  from all have "written Backend (snd (snd (snd (copyToBackend sampleHello ?c \<lparr>room = None\<rparr>))))
      = sampleHello @ stream (incoming ?c)"
    by simp
  then have "written Backend (snd (snd (snd (copyToBackend sampleHello ?c \<lparr>room = None\<rparr>))))
      = sampleHello @ [9, 9, 8]"
    by simp
  with len sample_run show ?thesis by blast
qed

section \<open>The SNI extractor: results\<close>

lemma uintBE_be16: "n < 65536 \<Longrightarrow> uintBE (be16 n) = n"
  by (simp add: uintBE_def be16_def unat_of_nat)




lemma byteAt_Got: "i < length data \<Longrightarrow> byteAt data i = Got (data ! i)"
  by (simp add: byteAt_def)

lemma byteSlice_Got:
  "lo \<le> hi \<Longrightarrow> hi \<le> length data \<Longrightarrow> byteSlice data lo hi = Got (take (hi - lo) (drop lo data))"
  by (simp add: byteSlice_def)


lemma scanNames_unfold:
  "scanNames entries =
     (if length entries < 3 then NotFound
      else if length entries < 3 + uintBE (take 2 (drop 1 entries)) then NotFound
      else if entries ! 0 = 0
        then Got (take (uintBE (take 2 (drop 1 entries))) (drop 3 entries))
      else scanNames (drop (3 + uintBE (take 2 (drop 1 entries))) entries))"
proof (cases "length entries < 3")
  case True
  then show ?thesis by (subst scanNames.simps) simp
next
  case False
  then have "byteAt entries 0 = Got (entries ! 0)"
    by (auto simp: byteAt_def)
  with False show ?thesis
    by (subst scanNames.simps) (simp add: byteSlice_Got)
qed

















lemma encodeNames_Cons:
  "encodeNames ((t, name) # es) = t # be16 (length name) @ name @ encodeNames es"
  by (simp add: encodeNames_def)



lemma scanNames_entry:
  assumes "length name < 65536"
  shows "scanNames (t # be16 (length name) @ name @ r) =
           (if t = 0 then Got name else scanNames r)"
proof -
  let ?e = "t # be16 (length name) @ name @ r"
  have a: "take 2 (drop 1 ?e) = be16 (length name)"
    by (simp add: be16_def)
  have b: "length ?e = 3 + length name + length r"
    by (simp add: be16_def)
  have c: "drop 3 ?e = name @ r"
    by (simp add: be16_def)
  have d: "drop (3 + length name) ?e = r"
  proof -
    have "drop (3 + length name) ?e = drop (length name) (drop 3 ?e)"
      by (simp only: drop_drop add.commute)
    also have "\<dots> = r"
      by (simp only: c) simp
    finally show ?thesis .
  qed
  show ?thesis
    by (subst scanNames_unfold) (simp only: a b c d uintBE_be16 [OF assms], simp)
qed
























subsection \<open>The extractor finds a name exactly where the buffer carries one\<close>

lemma unat_byte: "unat (b :: byte) < 256"
  using unsigned_less [of b, where 'a = nat] by simp

lemma divmod_256:
  fixes x c :: nat
  assumes "c < 256"
  shows "(x * 256 + c) div 256 = x" and "(x * 256 + c) mod 256 = c"
  using assms by simp_all

lemma be16_uintBE:
  assumes "length bs = 2"
  shows "be16 (uintBE bs) = bs" and "uintBE bs < 65536"
proof -
  from assms obtain a b where bs: "bs = [a, b]"
    by (auto simp: length_Suc_conv numeral_2_eq_2)
  have u: "uintBE bs = unat a * 256 + unat b"
    by (simp add: bs uintBE_def)
  have a: "unat a < 256" and b: "unat b < 256" by (rule unat_byte)+
  note d = divmod_256(1) [OF b, of "unat a"] and m = divmod_256(2) [OF b, of "unat a"]
  show "be16 (uintBE bs) = bs"
    unfolding u be16_def d m by (simp add: bs)
  from a b show "uintBE bs < 65536"
    unfolding u by simp
qed



lemma field_split:
  "w + n \<le> length xs \<Longrightarrow> xs = take w xs @ take n (drop w xs) @ drop (w + n) xs"
  by (metis append_take_drop_id drop_drop add.commute)



subsection \<open>Names\<close>

lemma scanNames_skip:
  assumes "\<forall>e\<in>set skipped. fst e \<noteq> 0 \<and> length (snd e) < 65536"
  shows "scanNames (encodeNames skipped @ r) = scanNames r"
  using assms
proof (induction skipped)
  case Nil
  show ?case by (simp add: encodeNames_def)
next
  case (Cons e skipped)
  obtain t name where e: "e = (t, name)" by (cases e)
  from Cons.prems e have t: "t \<noteq> 0" and n: "length name < 65536" by simp_all
  have "encodeNames (e # skipped) @ r = t # be16 (length name) @ name @ (encodeNames skipped @ r)"
    by (simp add: e encodeNames_Cons)
  then have "scanNames (encodeNames (e # skipped) @ r) = scanNames (encodeNames skipped @ r)"
    using scanNames_entry [OF n, of t "encodeNames skipped @ r"] t by simp
  with Cons show ?case by simp
qed

lemma scanNames_carry: "namesCarry entries H \<Longrightarrow> scanNames entries = Got H"
proof -
  assume "namesCarry entries H"
  then obtain skipped tail where
    e: "entries = encodeNames skipped @ 0 # be16 (length H) @ H @ tail"
    and sk: "\<forall>e\<in>set skipped. fst e \<noteq> 0 \<and> length (snd e) < 65536"
    and h: "length H < 65536"
    unfolding namesCarry_def by blast
  have "scanNames entries = scanNames (0 # be16 (length H) @ H @ tail)"
    unfolding e using sk by (rule scanNames_skip)
  also have "\<dots> = Got H"
    using scanNames_entry [OF h, of 0 tail] by simp
  finally show ?thesis .
qed

lemma scanNames_Got: "scanNames entries = Got H \<Longrightarrow> namesCarry entries H"
proof (induction "length entries" arbitrary: entries rule: less_induct)
  case less
  let ?n = "uintBE (take 2 (drop 1 entries))"
  let ?name = "take ?n (drop 3 entries)"
  let ?rest = "drop (3 + ?n) entries"
  from less.prems have l3: "\<not> length entries < 3"
    by (subst (asm) scanNames_unfold) (simp split: if_splits)
  from less.prems l3 have ln: "\<not> length entries < 3 + ?n"
    by (subst (asm) scanNames_unfold) (simp split: if_splits)
  from l3 have l2: "length (take 2 (drop 1 entries)) = 2" by simp
  note hdr = be16_uintBE(1) [OF l2] and nb = be16_uintBE(2) [OF l2]
  from ln have ln': "length ?name = ?n" by simp
  have "entries = take 3 entries @ ?name @ ?rest"
    using ln by (intro field_split) simp
  moreover have "take 3 entries = entries ! 0 # take 2 (drop 1 entries)"
  proof -
    from l3 obtain a b c xs where "entries = a # b # c # xs"
      by (cases entries; cases "tl entries"; cases "tl (tl entries)") auto
    then show ?thesis by simp
  qed
  ultimately have split: "entries = entries ! 0 # be16 (length ?name) @ ?name @ ?rest"
    using hdr ln' by simp
  show ?case
  proof (cases "entries ! 0 = 0")
    case True
    with less.prems l3 ln have H: "H = ?name"
      by (subst (asm) scanNames_unfold) simp
    have "entries = encodeNames [] @ 0 # be16 (length H) @ H @ ?rest"
      using split True H by (simp add: encodeNames_def)
    moreover have "length H < 65536" using H ln' nb by simp
    ultimately show ?thesis
      unfolding namesCarry_def by (intro exI [of _ "[]"] exI [of _ ?rest]) simp
  next
    case False
    with less.prems l3 ln have r: "scanNames ?rest = Got H"
      by (subst (asm) scanNames_unfold) simp
    from l3 have "length ?rest < length entries" by simp
    from less.hyps [OF this r] obtain skipped tail where
      e: "?rest = encodeNames skipped @ 0 # be16 (length H) @ H @ tail"
      and sk: "\<forall>e\<in>set skipped. fst e \<noteq> 0 \<and> length (snd e) < 65536"
      and h: "length H < 65536"
      unfolding namesCarry_def by blast
    let ?sk = "(entries ! 0, ?name) # skipped"
    have "entries = entries ! 0 # be16 (length ?name) @ ?name
        @ encodeNames skipped @ 0 # be16 (length H) @ H @ tail"
      using split e by simp
    then have "entries = encodeNames ?sk @ 0 # be16 (length H) @ H @ tail"
      by (simp add: encodeNames_Cons)
    moreover have "\<forall>e\<in>set ?sk. fst e \<noteq> 0 \<and> length (snd e) < 65536"
      using sk False ln' nb by simp
    ultimately show ?thesis
      unfolding namesCarry_def using h by (intro exI [of _ ?sk] exI [of _ tail]) simp
  qed
qed

lemma scanNames_iff: "scanNames entries = Got H \<longleftrightarrow> namesCarry entries H"
  using scanNames_Got scanNames_carry by blast


subsection \<open>The server-name extension\<close>



subsection \<open>Extensions\<close>



subsection \<open>The extensions block\<close>




subsection \<open>The body\<close>




subsection \<open>The message and the record\<close>






subsection \<open>Fields that are cut short\<close>













section \<open>The relay: results\<close>

text \<open>The loop of \<open>io.Copy\<close> is its turn, repeated.\<close>

lemma ioCopy_copyOnce:
  "ioCopy sd w src =
     (case copyOnce sd w src of
        (Return err, w', src', evs) \<Rightarrow> (err, w', src', evs)
      | (Continue, w', src', evs) \<Rightarrow>
          (case ioCopy sd w' src' of
             (err, w'', src'', evs') \<Rightarrow> (err, w'', src'', evs @ evs')))"
  by (subst ioCopy.simps) (auto simp: copyOnce_def split: prod.splits if_splits)

lemma connWrite_closed:
  "connWrite sd w bs = (nw, ew, w', evs) \<Longrightarrow> room w = Some 0 \<Longrightarrow> room w' = Some 0"
  by (auto simp: connWrite_def split: if_splits)

lemma copyOnce_facts:
  assumes "copyOnce sd w src = (p, w', src', evs)"
  shows "\<forall>e\<in>set evs. isIO e"
    and "room w = Some 0 \<Longrightarrow> room w' = Some 0"
proof -
  obtain bs er src1 evs1 where r: "Read 32768 src = (bs, er, src1, evs1)"
    by (cases "Read 32768 src") auto
  obtain nw ew w1 evs2 where
    wdef: "(if bs \<noteq> [] then connWrite sd w bs else (0, None, w, [])) = (nw, ew, w1, evs2)"
    by (cases "if bs \<noteq> [] then connWrite sd w bs else (0, None, w, [])") auto
  from assms r wdef have eq: "evs = evs1 @ evs2" "w' = w1"
    by (auto simp: copyOnce_def split: if_splits)
  have e1: "\<forall>e\<in>set evs1. isIO e"
  proof
    fix e assume "e \<in> set evs1"
    with Read_facts [OF r] have "isRead e" by blast
    then show "isIO e" by (cases e) auto
  qed
  have e2: "\<forall>e\<in>set evs2. isIO e"
  proof (cases "bs = []")
    case True
    with wdef show ?thesis by auto
  next
    case False
    with wdef have "connWrite sd w bs = (nw, ew, w1, evs2)" by simp
    from connWrite_facts(1) [OF this] show ?thesis by simp
  qed
  from e1 e2 eq show "\<forall>e\<in>set evs. isIO e" by auto
  show "room w' = Some 0" if "room w = Some 0"
  proof (cases "bs = []")
    case True
    with wdef eq that show ?thesis by auto
  next
    case False
    with wdef have "connWrite sd w bs = (nw, ew, w1, evs2)" by simp
    from connWrite_closed [OF this that] eq show ?thesis by simp
  qed
qed

lemma isIO_not_Close: "\<forall>e\<in>set evs. isIO e \<Longrightarrow> Close sd \<notin> set evs"
  by auto

lemma relayInv_start: "relayInv (startRelay sni buf conn connW backendConn backendW)"
  by (simp add: relayInv_def startRelay_def ended_def)

lemma relayInv_copy:
  assumes inv: "relayInv s"
    and h: "handler s' = handler s" "errCh s' = errCh s" "trace s' = trace s @ evs"
    and en: "ended s' = ended s"
    and io: "\<forall>e\<in>set evs. isIO e"
    and b: "room (toBackendDst s) = Some 0 \<Longrightarrow> room (toBackendDst s') = Some 0"
    and c: "room (toClientDst s) = Some 0 \<Longrightarrow> room (toClientDst s') = Some 0"
  shows "relayInv s'"
proof -
  from io have nc: "Close Backend \<notin> set evs" "Close Client \<notin> set evs" by auto
  from inv have i: "length (errCh s) + (if handler s = Waiting then 0 else 1) = ended s"
    "Close Backend \<in> set (trace s) \<longleftrightarrow> handler s = BackendClosed \<or> handler s = Done"
    "Close Client \<in> set (trace s) \<longleftrightarrow> handler s = Done"
    "handler s = BackendClosed \<or> handler s = Done \<longrightarrow> room (toBackendDst s) = Some 0"
    "handler s = Done \<longrightarrow> room (toClientDst s) = Some 0"
    by (simp_all add: relayInv_def)
  show ?thesis
    unfolding relayInv_def h en
    using i nc b c by auto
qed

lemma relayInv_send:
  assumes inv: "relayInv s"
    and h: "handler s' = handler s" "errCh s' = errCh s @ [err]" "trace s' = trace s"
      "toBackendDst s' = toBackendDst s" "toClientDst s' = toClientDst s"
    and en: "ended s' = Suc (ended s)"
  shows "relayInv s'"
proof -
  from inv have i: "length (errCh s) + (if handler s = Waiting then 0 else 1) = ended s"
    "Close Backend \<in> set (trace s) \<longleftrightarrow> handler s = BackendClosed \<or> handler s = Done"
    "Close Client \<in> set (trace s) \<longleftrightarrow> handler s = Done"
    "handler s = BackendClosed \<or> handler s = Done \<longrightarrow> room (toBackendDst s) = Some 0"
    "handler s = Done \<longrightarrow> room (toClientDst s) = Some 0"
    by (simp_all add: relayInv_def)
  show ?thesis
    unfolding relayInv_def h en
    using i by auto
qed

lemma relayInv_step:
  assumes inv: "relayInv s" and st: "step g s = Some s'"
  shows "relayInv s'"
proof (cases g)
  case CopyToBackend
  show ?thesis
  proof (cases "toBackend s")
    case Running
    obtain p w src evs where c: "copyOnce Backend (toBackendDst s) (toBackendSrc s) = (p, w, src, evs)"
      by (cases "copyOnce Backend (toBackendDst s) (toBackendSrc s)") auto
    from st CopyToBackend Running c
    have s': "s' = s\<lparr>toBackend := (case p of Continue \<Rightarrow> Running | Return err \<Rightarrow> Returned err),
                       toBackendSrc := src, toBackendDst := w, trace := trace s @ evs\<rparr>"
      by simp
    have ne: "(case p of Continue \<Rightarrow> Running | Return err \<Rightarrow> Returned err) \<noteq> Ended"
      by (cases p) auto
    have en: "ended s' = ended s"
      using ne Running by (simp add: ended_def s')
    show ?thesis
    proof (rule relayInv_copy [OF inv _ _ _ en])
      show "handler s' = handler s" "errCh s' = errCh s" "trace s' = trace s @ evs"
        by (simp_all add: s')
      show "\<forall>e\<in>set evs. isIO e"
        using copyOnce_facts(1) [OF c] .
      show "room (toBackendDst s') = Some 0" if "room (toBackendDst s) = Some 0"
        using copyOnce_facts(2) [OF c that] by (simp add: s')
      show "room (toClientDst s') = Some 0" if "room (toClientDst s) = Some 0"
        using that by (simp add: s')
    qed
  next
    case (Returned err)
    with st CopyToBackend have room: "length (errCh s) < 2"
      and s': "s' = s\<lparr>toBackend := Ended, errCh := errCh s @ [err]\<rparr>"
      by (auto split: if_splits)
    have en: "ended s' = Suc (ended s)"
      using Returned by (simp add: ended_def s')
    show ?thesis
      by (rule relayInv_send [OF inv _ _ _ _ _ en]) (simp_all add: s')
  next
    case Ended
    with st CopyToBackend show ?thesis by simp
  qed
next
  case CopyToClient
  show ?thesis
  proof (cases "toClient s")
    case Running
    obtain p w src evs where c: "copyOnce Client (toClientDst s) (toClientSrc s) = (p, w, src, evs)"
      by (cases "copyOnce Client (toClientDst s) (toClientSrc s)") auto
    from st CopyToClient Running c
    have s': "s' = s\<lparr>toClient := (case p of Continue \<Rightarrow> Running | Return err \<Rightarrow> Returned err),
                       toClientSrc := src, toClientDst := w, trace := trace s @ evs\<rparr>"
      by simp
    have ne: "(case p of Continue \<Rightarrow> Running | Return err \<Rightarrow> Returned err) \<noteq> Ended"
      by (cases p) auto
    have en: "ended s' = ended s"
      using ne Running by (simp add: ended_def s')
    show ?thesis
    proof (rule relayInv_copy [OF inv _ _ _ en])
      show "handler s' = handler s" "errCh s' = errCh s" "trace s' = trace s @ evs"
        by (simp_all add: s')
      show "\<forall>e\<in>set evs. isIO e"
        using copyOnce_facts(1) [OF c] .
      show "room (toClientDst s') = Some 0" if "room (toClientDst s) = Some 0"
        using copyOnce_facts(2) [OF c that] by (simp add: s')
      show "room (toBackendDst s') = Some 0" if "room (toBackendDst s) = Some 0"
        using that by (simp add: s')
    qed
  next
    case (Returned err)
    with st CopyToClient have room: "length (errCh s) < 2"
      and s': "s' = s\<lparr>toClient := Ended, errCh := errCh s @ [err]\<rparr>"
      by (auto split: if_splits)
    have en: "ended s' = Suc (ended s)"
      using Returned by (simp add: ended_def s')
    show ?thesis
      by (rule relayInv_send [OF inv _ _ _ _ _ en]) (simp_all add: s')
  next
    case Ended
    with st CopyToClient show ?thesis by simp
  qed
next
  case Handler
  from inv have i: "length (errCh s) + (if handler s = Waiting then 0 else 1) = ended s"
    "Close Backend \<in> set (trace s) \<longleftrightarrow> handler s = BackendClosed \<or> handler s = Done"
    "Close Client \<in> set (trace s) \<longleftrightarrow> handler s = Done"
    "handler s = BackendClosed \<or> handler s = Done \<longrightarrow> room (toBackendDst s) = Some 0"
    "handler s = Done \<longrightarrow> room (toClientDst s) = Some 0"
    by (simp_all add: relayInv_def)
  show ?thesis
  proof (cases "handler s")
    case Waiting
    with st Handler obtain err rest where e: "errCh s = err # rest"
      and s': "s' = s\<lparr>errCh := rest, handler := Received err\<rparr>"
      by (cases "errCh s") auto
    have "ended s' = ended s" by (simp add: ended_def s')
    with i Waiting e show ?thesis
      by (simp add: relayInv_def s')
  next
    case (Received err)
    with st Handler have s': "s' = s\<lparr>handler := BackendClosed,
                  toBackendDst := closeSink (toBackendDst s),
                  toClientSrc := closeReader Backend (toClientSrc s),
                  trace := trace s
                    @ (if err \<noteq> None \<and> err \<noteq> Some EOF then [LogLine (LogCopyError (host s))] else [])
                    @ [Close Backend]\<rparr>"
      by simp
    have "ended s' = ended s" by (simp add: ended_def s')
    with i Received show ?thesis
      by (simp add: relayInv_def s' closeSink_def)
  next
    case BackendClosed
    with st Handler have s': "s' = s\<lparr>handler := Done,
                  toClientDst := closeSink (toClientDst s),
                  toBackendSrc := closeReader Client (toBackendSrc s),
                  trace := trace s @ [Close Client]\<rparr>"
      by simp
    have "ended s' = ended s" by (simp add: ended_def s')
    with i BackendClosed show ?thesis
      by (simp add: relayInv_def s' closeSink_def)
  next
    case Done
    with st Handler show ?thesis by simp
  qed
qed

lemma relayInv_run: "relayInv s \<Longrightarrow> relayInv (run sched s)"
proof (induction sched arbitrary: s)
  case Nil
  then show ?case by simp
next
  case (Cons g sched)
  show ?case
  proof (cases "step g s")
    case None
    with Cons show ?thesis by simp
  next
    case (Some s')
    with Cons relayInv_step [of s g s'] show ?thesis by simp
  qed
qed

lemma teardown:
  assumes inv: "relayInv s" and one: "toBackend s = Ended \<or> toClient s = Ended"
  shows "handler (run [Handler, Handler, Handler] s) = Done
       \<and> Close Backend \<in> set (trace (run [Handler, Handler, Handler] s))
       \<and> Close Client \<in> set (trace (run [Handler, Handler, Handler] s))
       \<and> room (toBackendDst (run [Handler, Handler, Handler] s)) = Some 0
       \<and> room (toClientDst (run [Handler, Handler, Handler] s)) = Some 0
       \<and> toBackend (run [Handler, Handler, Handler] s) = toBackend s
       \<and> toClient (run [Handler, Handler, Handler] s) = toClient s
       \<and> filter isIO (trace (run [Handler, Handler, Handler] s)) = filter isIO (trace s)"
proof (cases "handler s")
  case Waiting
  with inv one obtain err rest where "errCh s = err # rest"
    by (cases "errCh s") (auto simp: relayInv_def ended_def split: if_splits)
  with Waiting show ?thesis
    by (simp add: closeSink_def)
next
  case (Received err)
  then show ?thesis by (simp add: closeSink_def)
next
  case BackendClosed
  with inv show ?thesis by (simp add: closeSink_def relayInv_def)
next
  case Done
  with inv show ?thesis by (simp add: relayInv_def)
qed

text \<open>
  A closed socket stays closed: a read of it fails and delivers nothing, a write of
  a byte to it fails; so a copy between closed sockets moves no byte and returns.
\<close>

lemma moved_append: "moved (xs @ ys) = moved xs @ moved ys"
  by (induction xs rule: moved.induct) auto

lemma moved_filter: "moved (filter isIO evs) = moved evs"
  by (induction evs rule: moved.induct) auto

lemma Read_readsOnly:
  "Read k r = (bs, er, r', evs) \<Longrightarrow> readsOnly sd r \<Longrightarrow> readsOnly sd r'"
proof (induction k r arbitrary: bs er r' evs rule: Read.induct)
  case (1 k sd' c)
  then show ?case by (auto split: prod.splits)
next
  case (2 k buf)
  then show ?case by (auto split: if_splits)
next
  case (3 k)
  then show ?case by auto
next
  case (4 k r rs)
  obtain bs1 err1 r1 evs1 where r: "Read k r = (bs1, err1, r1, evs1)"
    by (cases "Read k r") auto
  from "4.prems"(2) have ro: "readsOnly sd r" "readsOnly sd (MultiReader rs)" by simp_all
  from "4.IH"(1) [OF r ro(1)] have r1: "readsOnly sd r1" .
  show ?case
  proof (cases "bs1 \<noteq> [] \<or> err1 \<noteq> Some EOF")
    case True
    with r "4.prems"(1) have "r' = MultiReader (if err1 = Some EOF then rs else r1 # rs)"
      by (auto simp: Let_def split: if_splits)
    with r1 ro show ?thesis by simp
  next
    case False
    then have f: "bs1 = []" "err1 = Some EOF" by auto
    obtain bs2 err2 m evs2 where m: "Read k (MultiReader rs) = (bs2, err2, m, evs2)"
      by (cases "Read k (MultiReader rs)") auto
    with f r "4.prems"(1) have "r' = m" by (auto simp: Let_def)
    note ih = "4.IH"(2)
    have "readsOnly sd m"
      using ih f m r ro(2) by (auto simp: Let_def)
    with \<open>r' = m\<close> show ?thesis by simp
  qed
qed

lemma Read_shut:
  "Read k r = (bs, er, r', evs) \<Longrightarrow> shut r \<Longrightarrow> 0 < k \<Longrightarrow>
     shut r' \<and> moved evs = [] \<and> (bs \<noteq> [] \<or> er \<noteq> None)"
proof (induction k r arbitrary: bs er r' evs rule: Read.induct)
  case (1 k sd' c)
  then show ?case by (auto simp: connRead_def split: prod.splits)
next
  case (2 k buf)
  then show ?case by (auto split: if_splits)
next
  case (3 k)
  then show ?case by auto
next
  case (4 k r rs)
  obtain bs1 err1 r1 evs1 where r: "Read k r = (bs1, err1, r1, evs1)"
    by (cases "Read k r") auto
  from "4.prems"(2) have sh: "shut r" "shut (MultiReader rs)" by simp_all
  from "4.IH"(1) [OF r sh(1) "4.prems"(3)]
  have r1: "shut r1" "moved evs1 = []" "bs1 \<noteq> [] \<or> err1 \<noteq> None" by simp_all
  show ?case
  proof (cases "bs1 \<noteq> [] \<or> err1 \<noteq> Some EOF")
    case True
    with r "4.prems"(1) have "r' = MultiReader (if err1 = Some EOF then rs else r1 # rs)"
      "evs = evs1" "bs = bs1"
      "er = (if err1 = Some EOF \<and> (if err1 = Some EOF then rs else r1 # rs) \<noteq> [] then None else err1)"
      by (auto simp: Let_def split: if_splits)
    with r1 sh True show ?thesis by (auto split: if_splits)
  next
    case False
    then have f: "bs1 = []" "err1 = Some EOF" by auto
    obtain bs2 err2 m evs2 where m: "Read k (MultiReader rs) = (bs2, err2, m, evs2)"
      by (cases "Read k (MultiReader rs)") auto
    with f r "4.prems"(1) have eq: "r' = m" "bs = bs2" "er = err2" "evs = evs1 @ evs2"
      by (auto simp: Let_def)
    note ih = "4.IH"(2)
    have "shut m \<and> moved evs2 = [] \<and> (bs2 \<noteq> [] \<or> err2 \<noteq> None)"
      using ih f m r sh(2) "4.prems"(3) by (auto simp: Let_def)
    with eq r1 show ?thesis by (simp add: moved_append)
  qed
qed

lemma closeReader_shut: "readsOnly sd r \<Longrightarrow> shut (closeReader sd r)"
  by (induction r rule: shut.induct) auto

lemma closeReader_readsOnly: "readsOnly sd' r \<Longrightarrow> readsOnly sd' (closeReader sd r)"
  by (induction r rule: shut.induct) auto

lemma closeReader_keeps_shut: "shut r \<Longrightarrow> shut (closeReader sd r)"
  by (induction r rule: shut.induct) auto

lemma copyOnce_readsOnly:
  "copyOnce sd w src = (p, w', src', evs) \<Longrightarrow> readsOnly sd' src \<Longrightarrow> readsOnly sd' src'"
  by (auto simp: copyOnce_def split: prod.splits if_splits dest: Read_readsOnly)

lemma copyOnce_shut_keeps:
  "copyOnce sd w src = (p, w', src', evs) \<Longrightarrow> shut src \<Longrightarrow> shut src'"
  by (auto simp: copyOnce_def split: prod.splits if_splits dest: Read_shut)

lemma copyOnce_torn:
  assumes c: "copyOnce sd w src = (p, w', src', evs)"
    and sh: "shut src" and cl: "room w = Some 0"
  shows "(\<exists>err. p = Return err) \<and> shut src' \<and> room w' = Some 0 \<and> moved evs = []"
proof -
  obtain bs er src1 evs1 where r: "Read 32768 src = (bs, er, src1, evs1)"
    by (cases "Read 32768 src") auto
  from Read_shut [OF r sh] have f: "shut src1" "moved evs1 = []" "bs \<noteq> [] \<or> er \<noteq> None"
    by simp_all
  show ?thesis
  proof (cases "bs = []")
    case True
    with f(3) have "er \<noteq> None" by simp
    with c r True f show ?thesis
      using cl by (auto simp: copyOnce_def)
  next
    case False
    then have "connWrite sd w bs = (0, Some IOError, w\<lparr>room := Some 0\<rparr>, [SockWrite sd []])"
      using cl by (cases bs) (auto simp: connWrite_def)
    with c r False f show ?thesis
      by (auto simp: copyOnce_def moved_append)
  qed
qed


lemma relayEnds_start: "relayEnds (startRelay sni buf conn connW backendConn backendW)"
  by (simp add: relayEnds_def startRelay_def)

lemma relayEnds_step:
  assumes inv: "relayEnds s" and st: "step g s = Some s'"
  shows "relayEnds s'"
proof -
  from inv have i: "readsOnly Client (toBackendSrc s)" "readsOnly Backend (toClientSrc s)"
    "handler s = BackendClosed \<or> handler s = Done \<longrightarrow> shut (toClientSrc s)"
    "handler s = Done \<longrightarrow> shut (toBackendSrc s)"
    by (simp_all add: relayEnds_def)
  show ?thesis
  proof (cases g)
    case CopyToBackend
    show ?thesis
    proof (cases "toBackend s")
      case Running
      obtain p w src evs where c: "copyOnce Backend (toBackendDst s) (toBackendSrc s) = (p, w, src, evs)"
        by (cases "copyOnce Backend (toBackendDst s) (toBackendSrc s)") auto
      from st CopyToBackend Running c
      have s': "handler s' = handler s" "toBackendSrc s' = src" "toClientSrc s' = toClientSrc s"
        by auto
      from copyOnce_readsOnly [OF c i(1)] have "readsOnly Client src" .
      moreover have "handler s = Done \<longrightarrow> shut src"
        using copyOnce_shut_keeps [OF c] i(4) by blast
      ultimately show ?thesis
        using i by (simp add: relayEnds_def s')
    next
      case (Returned err)
      with st CopyToBackend
      have "handler s' = handler s" "toBackendSrc s' = toBackendSrc s"
        "toClientSrc s' = toClientSrc s"
        by (auto split: if_splits)
      with i show ?thesis by (simp add: relayEnds_def)
    next
      case Ended
      with st CopyToBackend show ?thesis by simp
    qed
  next
    case CopyToClient
    show ?thesis
    proof (cases "toClient s")
      case Running
      obtain p w src evs where c: "copyOnce Client (toClientDst s) (toClientSrc s) = (p, w, src, evs)"
        by (cases "copyOnce Client (toClientDst s) (toClientSrc s)") auto
      from st CopyToClient Running c
      have s': "handler s' = handler s" "toClientSrc s' = src" "toBackendSrc s' = toBackendSrc s"
        by auto
      from copyOnce_readsOnly [OF c i(2)] have "readsOnly Backend src" .
      moreover have "handler s = BackendClosed \<or> handler s = Done \<longrightarrow> shut src"
        using copyOnce_shut_keeps [OF c] i(3) by blast
      ultimately show ?thesis
        using i by (simp add: relayEnds_def s')
    next
      case (Returned err)
      with st CopyToClient
      have "handler s' = handler s" "toBackendSrc s' = toBackendSrc s"
        "toClientSrc s' = toClientSrc s"
        by (auto split: if_splits)
      with i show ?thesis by (simp add: relayEnds_def)
    next
      case Ended
      with st CopyToClient show ?thesis by simp
    qed
  next
    case Handler
    show ?thesis
    proof (cases "handler s")
      case Waiting
      with st Handler obtain err where
        "handler s' = Received err" "toBackendSrc s' = toBackendSrc s"
        "toClientSrc s' = toClientSrc s"
        by (cases "errCh s") auto
      with i show ?thesis by (simp add: relayEnds_def)
    next
      case (Received err)
      with st Handler have s': "handler s' = BackendClosed" "toBackendSrc s' = toBackendSrc s"
        "toClientSrc s' = closeReader Backend (toClientSrc s)"
        by auto
      from i(2) have "shut (closeReader Backend (toClientSrc s))"
        "readsOnly Backend (closeReader Backend (toClientSrc s))"
        by (simp_all add: closeReader_shut closeReader_readsOnly)
      with i show ?thesis by (simp add: relayEnds_def s')
    next
      case BackendClosed
      with st Handler have s': "handler s' = Done" "toClientSrc s' = toClientSrc s"
        "toBackendSrc s' = closeReader Client (toBackendSrc s)"
        by auto
      from i(1) have "shut (closeReader Client (toBackendSrc s))"
        "readsOnly Client (closeReader Client (toBackendSrc s))"
        by (simp_all add: closeReader_shut closeReader_readsOnly)
      with i BackendClosed show ?thesis by (simp add: relayEnds_def s')
    next
      case Done
      with st Handler show ?thesis by simp
    qed
  qed
qed

lemma relayEnds_run: "relayEnds s \<Longrightarrow> relayEnds (run sched s)"
proof (induction sched arbitrary: s)
  case Nil
  then show ?case by simp
next
  case (Cons g sched)
  show ?case
  proof (cases "step g s")
    case None
    with Cons show ?thesis by simp
  next
    case (Some s')
    with Cons relayEnds_step [of s g s'] show ?thesis by simp
  qed
qed

lemma torn_step:
  assumes t: "torn s" and st: "step g s = Some s'"
  shows "torn s' \<and> moved (trace s') = moved (trace s)"
proof -
  from t have i: "handler s = Done" "room (toBackendDst s) = Some 0"
    "room (toClientDst s) = Some 0" "shut (toBackendSrc s)" "shut (toClientSrc s)"
    by (simp_all add: torn_def)
  show ?thesis
  proof (cases g)
    case CopyToBackend
    show ?thesis
    proof (cases "toBackend s")
      case Running
      obtain p w src evs where c: "copyOnce Backend (toBackendDst s) (toBackendSrc s) = (p, w, src, evs)"
        by (cases "copyOnce Backend (toBackendDst s) (toBackendSrc s)") auto
      from st CopyToBackend Running c
      have s': "handler s' = handler s" "toBackendSrc s' = src" "toClientSrc s' = toClientSrc s"
        "toBackendDst s' = w" "toClientDst s' = toClientDst s" "trace s' = trace s @ evs"
        by auto
      from copyOnce_torn [OF c i(4) i(2)] i show ?thesis
        by (simp add: torn_def s' moved_append)
    next
      case (Returned err)
      with st CopyToBackend
      have "handler s' = handler s" "toBackendSrc s' = toBackendSrc s"
        "toClientSrc s' = toClientSrc s" "toBackendDst s' = toBackendDst s"
        "toClientDst s' = toClientDst s" "trace s' = trace s"
        by (auto split: if_splits)
      with i show ?thesis by (simp add: torn_def)
    next
      case Ended
      with st CopyToBackend show ?thesis by simp
    qed
  next
    case CopyToClient
    show ?thesis
    proof (cases "toClient s")
      case Running
      obtain p w src evs where c: "copyOnce Client (toClientDst s) (toClientSrc s) = (p, w, src, evs)"
        by (cases "copyOnce Client (toClientDst s) (toClientSrc s)") auto
      from st CopyToClient Running c
      have s': "handler s' = handler s" "toClientSrc s' = src" "toBackendSrc s' = toBackendSrc s"
        "toClientDst s' = w" "toBackendDst s' = toBackendDst s" "trace s' = trace s @ evs"
        by auto
      from copyOnce_torn [OF c i(5) i(3)] i show ?thesis
        by (simp add: torn_def s' moved_append)
    next
      case (Returned err)
      with st CopyToClient
      have "handler s' = handler s" "toBackendSrc s' = toBackendSrc s"
        "toClientSrc s' = toClientSrc s" "toBackendDst s' = toBackendDst s"
        "toClientDst s' = toClientDst s" "trace s' = trace s"
        by (auto split: if_splits)
      with i show ?thesis by (simp add: torn_def)
    next
      case Ended
      with st CopyToClient show ?thesis by simp
    qed
  next
    case Handler
    with st i(1) show ?thesis by simp
  qed
qed

lemma torn_run: "torn s \<Longrightarrow> torn (run sched s) \<and> moved (trace (run sched s)) = moved (trace s)"
proof (induction sched arbitrary: s)
  case Nil
  then show ?case by simp
next
  case (Cons g sched)
  show ?case
  proof (cases "step g s")
    case None
    with Cons show ?thesis by simp
  next
    case (Some s')
    from torn_step [OF Cons.prems Some] have "torn s'" "moved (trace s') = moved (trace s)"
      by simp_all
    with Cons.IH [of s'] Some show ?thesis by simp
  qed
qed

lemma torn_returns:
  assumes t: "torn s"
  shows "toBackend (run [CopyToBackend] s) \<noteq> Running"
    and "toClient (run [CopyToClient] s) \<noteq> Running"
proof -
  from t have i: "handler s = Done" "room (toBackendDst s) = Some 0"
    "room (toClientDst s) = Some 0" "shut (toBackendSrc s)" "shut (toClientSrc s)"
    by (simp_all add: torn_def)
  show "toBackend (run [CopyToBackend] s) \<noteq> Running"
  proof (cases "toBackend s")
    case Running
    obtain p w src evs where c: "copyOnce Backend (toBackendDst s) (toBackendSrc s) = (p, w, src, evs)"
      by (cases "copyOnce Backend (toBackendDst s) (toBackendSrc s)") auto
    from copyOnce_torn [OF c i(4) i(2)] obtain err where "p = Return err" by blast
    with Running c show ?thesis by simp
  next
    case (Returned err)
    then show ?thesis by simp
  next
    case Ended
    then show ?thesis by simp
  qed
  show "toClient (run [CopyToClient] s) \<noteq> Running"
  proof (cases "toClient s")
    case Running
    obtain p w src evs where c: "copyOnce Client (toClientDst s) (toClientSrc s) = (p, w, src, evs)"
      by (cases "copyOnce Client (toClientDst s) (toClientSrc s)") auto
    from copyOnce_torn [OF c i(5) i(3)] obtain err where "p = Return err" by blast
    with Running c show ?thesis by simp
  next
    case (Returned err)
    then show ?thesis by simp
  next
    case Ended
    then show ?thesis by simp
  qed
qed

lemma teardown_torn:
  assumes inv: "relayInv s" and ends: "relayEnds s"
    and one: "toBackend s = Ended \<or> toClient s = Ended"
  shows "torn (run [Handler, Handler, Handler] s)"
proof -
  let ?s' = "run [Handler, Handler, Handler] s"
  from teardown [OF inv one] have d: "handler ?s' = Done" by blast
  from relayInv_run [OF inv, of "[Handler, Handler, Handler]"] d
  have "room (toBackendDst ?s') = Some 0" "room (toClientDst ?s') = Some 0"
    by (simp_all add: relayInv_def)
  moreover from relayEnds_run [OF ends, of "[Handler, Handler, Handler]"] d
  have "shut (toBackendSrc ?s')" "shut (toClientSrc ?s')"
    by (simp_all add: relayEnds_def)
  ultimately show ?thesis using d by (simp add: torn_def)
qed

text \<open>
  Claim C6. In every state that the relay reaches, under any schedule: while neither
  copy has ended, no socket is closed; and once one copy has ended, the handler's own
  next steps, at most three, with no step of the other copy, close the backend
  socket and the client socket. These steps leave the other copy where it is, still
  running if it was, and read and write nothing. After them both sockets are closed
  for writing and for reading: what the other copy had pending will not be delivered.
  A copy that is still running returns at its next step, and whatever steps follow,
  no byte is read from or written to a socket any more: nothing is drained.
\<close>

theorem relay_teardown:
  assumes s: "s = run sched (startRelay sni buf conn connW backendConn backendW)"
  shows "(toBackend s \<noteq> Ended \<and> toClient s \<noteq> Ended \<longrightarrow>
            Close Backend \<notin> set (trace s) \<and> Close Client \<notin> set (trace s))
       \<and> (toBackend s = Ended \<or> toClient s = Ended \<longrightarrow>
            handler (run [Handler, Handler, Handler] s) = Done
            \<and> Close Backend \<in> set (trace (run [Handler, Handler, Handler] s))
            \<and> Close Client \<in> set (trace (run [Handler, Handler, Handler] s))
            \<and> room (toBackendDst (run [Handler, Handler, Handler] s)) = Some 0
            \<and> room (toClientDst (run [Handler, Handler, Handler] s)) = Some 0
            \<and> toBackend (run [Handler, Handler, Handler] s) = toBackend s
            \<and> toClient (run [Handler, Handler, Handler] s) = toClient s
            \<and> filter isIO (trace (run [Handler, Handler, Handler] s)) = filter isIO (trace s)
            \<and> shut (toBackendSrc (run [Handler, Handler, Handler] s))
            \<and> shut (toClientSrc (run [Handler, Handler, Handler] s))
            \<and> toBackend (run [CopyToBackend] (run [Handler, Handler, Handler] s)) \<noteq> Running
            \<and> toClient (run [CopyToClient] (run [Handler, Handler, Handler] s)) \<noteq> Running
            \<and> (\<forall>after. moved (trace (run after (run [Handler, Handler, Handler] s)))
                          = moved (trace s)))"
proof -
  let ?s' = "run [Handler, Handler, Handler] s"
  have inv: "relayInv s"
    unfolding s by (rule relayInv_run [OF relayInv_start])
  have ends: "relayEnds s"
    unfolding s by (rule relayEnds_run [OF relayEnds_start])
  have a: "Close Backend \<notin> set (trace s) \<and> Close Client \<notin> set (trace s)"
    if "toBackend s \<noteq> Ended \<and> toClient s \<noteq> Ended"
  proof -
    from that have "ended s = 0" by (simp add: ended_def)
    with inv have "handler s = Waiting"
      by (auto simp: relayInv_def split: if_splits)
    with inv show ?thesis by (simp add: relayInv_def)
  qed
  have b: "shut (toBackendSrc ?s') \<and> shut (toClientSrc ?s')
      \<and> toBackend (run [CopyToBackend] ?s') \<noteq> Running
      \<and> toClient (run [CopyToClient] ?s') \<noteq> Running
      \<and> (\<forall>after. moved (trace (run after ?s')) = moved (trace s))"
    if one: "toBackend s = Ended \<or> toClient s = Ended"
  proof -
    from teardown_torn [OF inv ends one] have t: "torn ?s'" .
    from teardown [OF inv one] have "filter isIO (trace ?s') = filter isIO (trace s)"
      by blast
    then have "moved (filter isIO (trace ?s')) = moved (filter isIO (trace s))"
      by simp
    then have m: "moved (trace ?s') = moved (trace s)"
      by (simp only: moved_filter)
    have "moved (trace (run after ?s')) = moved (trace s)" for after
      using torn_run [OF t, of after] m by simp
    with t torn_returns [OF t] show ?thesis
      by (simp add: torn_def)
  qed
  from a b teardown [OF inv] show ?thesis by blast
qed

lemma sample_run1:
  "run [CopyToBackend, CopyToClient, CopyToClient, CopyToClient] sampleRelay =
     \<lparr>host = ''a.test'',
      toBackend = Running,
      toBackendSrc = MultiReader [BufferReader [],
         ConnReader Client \<lparr>incoming = [Data [4, 5], Data [6]], readDeadline = None\<rparr>],
      toBackendDst = \<lparr>room = None\<rparr>,
      toClient = Ended,
      toClientSrc = ConnReader Backend \<lparr>incoming = [], readDeadline = None\<rparr>,
      toClientDst = \<lparr>room = None\<rparr>,
      errCh = [None],
      handler = Waiting,
      trace = [SockWrite Backend [1, 2, 3], SockRead Backend None [7, 8],
               SockWrite Client [7, 8], SockRead Backend None []]\<rparr>"
  by (simp add: sampleRelay_def startRelay_def copyOnce_def connRead_def connWrite_def)

lemma sample_run2:
  "run [Handler, Handler, Handler]
     (run [CopyToBackend, CopyToClient, CopyToClient, CopyToClient] sampleRelay) =
     \<lparr>host = ''a.test'',
      toBackend = Running,
      toBackendSrc = MultiReader [BufferReader [],
         ConnReader Client \<lparr>incoming = [ReadError], readDeadline = None\<rparr>],
      toBackendDst = \<lparr>room = Some 0\<rparr>,
      toClient = Ended,
      toClientSrc = ConnReader Backend \<lparr>incoming = [ReadError], readDeadline = None\<rparr>,
      toClientDst = \<lparr>room = Some 0\<rparr>,
      errCh = [],
      handler = Done,
      trace = [SockWrite Backend [1, 2, 3], SockRead Backend None [7, 8],
               SockWrite Client [7, 8], SockRead Backend None [], Close Backend, Close Client]\<rparr>"
  unfolding sample_run1 by (simp add: closeSink_def)

lemma sample_run3:
  "run [CopyToBackend, CopyToBackend]
     (run [Handler, Handler, Handler]
       (run [CopyToBackend, CopyToClient, CopyToClient, CopyToClient] sampleRelay)) =
     \<lparr>host = ''a.test'',
      toBackend = Ended,
      toBackendSrc = MultiReader [
         ConnReader Client \<lparr>incoming = [ReadError], readDeadline = None\<rparr>],
      toBackendDst = \<lparr>room = Some 0\<rparr>,
      toClient = Ended,
      toClientSrc = ConnReader Backend \<lparr>incoming = [ReadError], readDeadline = None\<rparr>,
      toClientDst = \<lparr>room = Some 0\<rparr>,
      errCh = [Some IOError],
      handler = Done,
      trace = [SockWrite Backend [1, 2, 3], SockRead Backend None [7, 8],
               SockWrite Client [7, 8], SockRead Backend None [], Close Backend, Close Client,
               SockRead Client None []]\<rparr>"
  unfolding sample_run2 by (simp add: copyOnce_def connRead_def connWrite_def)

theorem relay_teardown_witness:
  "toClient (run [CopyToBackend, CopyToClient, CopyToClient, CopyToClient] sampleRelay) = Ended
   \<and> toBackend (run [CopyToBackend, CopyToClient, CopyToClient, CopyToClient] sampleRelay) = Running
   \<and> toBackendSrc (run [CopyToBackend, CopyToClient, CopyToClient, CopyToClient] sampleRelay) =
       MultiReader [BufferReader [],
         ConnReader Client \<lparr>incoming = [Data [4, 5], Data [6]], readDeadline = None\<rparr>]
   \<and> handler (run [Handler, Handler, Handler]
         (run [CopyToBackend, CopyToClient, CopyToClient, CopyToClient] sampleRelay)) = Done
   \<and> toBackend (run [Handler, Handler, Handler]
         (run [CopyToBackend, CopyToClient, CopyToClient, CopyToClient] sampleRelay)) = Running
   \<and> toBackendSrc (run [Handler, Handler, Handler]
         (run [CopyToBackend, CopyToClient, CopyToClient, CopyToClient] sampleRelay)) =
       MultiReader [BufferReader [],
         ConnReader Client \<lparr>incoming = [ReadError], readDeadline = None\<rparr>]
   \<and> trace (run [Handler, Handler, Handler]
         (run [CopyToBackend, CopyToClient, CopyToClient, CopyToClient] sampleRelay)) =
       [SockWrite Backend [1, 2, 3], SockRead Backend None [7, 8],
        SockWrite Client [7, 8], SockRead Backend None [], Close Backend, Close Client]
   \<and> toBackend (run [CopyToBackend, CopyToBackend] (run [Handler, Handler, Handler]
         (run [CopyToBackend, CopyToClient, CopyToClient, CopyToClient] sampleRelay))) = Ended
   \<and> trace (run [CopyToBackend, CopyToBackend] (run [Handler, Handler, Handler]
         (run [CopyToBackend, CopyToClient, CopyToClient, CopyToClient] sampleRelay))) =
       [SockWrite Backend [1, 2, 3], SockRead Backend None [7, 8],
        SockWrite Client [7, 8], SockRead Backend None [], Close Backend, Close Client,
        SockRead Client None []]
   \<and> moved (trace (run [CopyToBackend, CopyToBackend] (run [Handler, Handler, Handler]
         (run [CopyToBackend, CopyToClient, CopyToClient, CopyToClient] sampleRelay)))) =
       [1, 2, 3, 7, 8, 7, 8]"
proof -
  let ?s = "run [CopyToBackend, CopyToClient, CopyToClient, CopyToClient] sampleRelay"
  let ?s' = "run [Handler, Handler, Handler] ?s"
  have "?s = run [CopyToBackend, CopyToClient, CopyToClient, CopyToClient]
      (startRelay ''a.test'' [1, 2, 3]
        \<lparr>incoming = [Data [4, 5], Data [6]], readDeadline = None\<rparr> \<lparr>room = None\<rparr>
        \<lparr>incoming = [Data [7, 8]], readDeadline = None\<rparr> \<lparr>room = None\<rparr>)"
    by (simp only: sampleRelay_def)
  from relay_teardown [OF this]
  have "toBackend ?s = Ended \<or> toClient ?s = Ended \<longrightarrow>
      (\<forall>after. moved (trace (run after ?s')) = moved (trace ?s))"
    by blast
  moreover have "toClient ?s = Ended" unfolding sample_run1 by simp
  ultimately have "moved (trace (run [CopyToBackend, CopyToBackend] ?s')) = moved (trace ?s)"
    by blast
  also have "\<dots> = [1, 2, 3, 7, 8, 7, 8]" unfolding sample_run1 by simp
  finally have m: "moved (trace (run [CopyToBackend, CopyToBackend] ?s')) = [1, 2, 3, 7, 8, 7, 8]" .
  have a: "toClient ?s = Ended" "toBackend ?s = Running"
    "toBackendSrc ?s = MultiReader [BufferReader [],
         ConnReader Client \<lparr>incoming = [Data [4, 5], Data [6]], readDeadline = None\<rparr>]"
    unfolding sample_run1 by simp_all
  have b: "handler ?s' = Done" "toBackend ?s' = Running"
    "toBackendSrc ?s' = MultiReader [BufferReader [],
         ConnReader Client \<lparr>incoming = [ReadError], readDeadline = None\<rparr>]"
    "trace ?s' = [SockWrite Backend [1, 2, 3], SockRead Backend None [7, 8],
        SockWrite Client [7, 8], SockRead Backend None [], Close Backend, Close Client]"
    unfolding sample_run2 by simp_all
  have c: "toBackend (run [CopyToBackend, CopyToBackend] ?s') = Ended"
    "trace (run [CopyToBackend, CopyToBackend] ?s') =
       [SockWrite Backend [1, 2, 3], SockRead Backend None [7, 8],
        SockWrite Client [7, 8], SockRead Backend None [], Close Backend, Close Client,
        SockRead Client None []]"
    unfolding sample_run3 by simp_all
  from a b c m show ?thesis by (intro conjI)
qed

end
